theory Spec2Isabelle
  imports Main "HOL-Library.Multiset"
begin

section \<open>The sort-based window build (velox/exec/SortWindowBuild.cpp)\<close>

text \<open>
  A row handle (\<^verbatim>\<open>char*\<close> into the row container) is modelled by the row it points to, a
  value of the type variable \<open>'r\<close>. Indices (\<^verbatim>\<open>vector_size_t\<close>, \<^verbatim>\<open>size_t\<close>) are
  mathematical integers; the one operation of the file that can leave the range of its C++
  type on rows that fit the types, the doubling of the \<^verbatim>\<open>int\<close> variable \<^verbatim>\<open>distance\<close>, is
  checked explicitly, and its overflow (undefined behaviour in C++) is the error value
  \<open>SignedOverflow\<close>. A failed \<^verbatim>\<open>VELOX_CHECK\<close> is the error value \<open>CheckFailed\<close>.
\<close>

datatype error = SignedOverflow | CheckFailed string

definition INT_MAX :: int where
  "INT_MAX = 2147483647"

subsection \<open>findNextPartitionStartRow\<close>

text \<open>
  The inner \<^verbatim>\<open>for (; distance < lastPosition - left; distance *= 2)\<close> loop. It returns the
  values of \<^verbatim>\<open>distance\<close> and \<^verbatim>\<open>lastPosition\<close> when the loop is left (by its condition or by
  \<^verbatim>\<open>break\<close>). \<open>partitionCompare\<close> is the lambda of the source, which calls
  \<^verbatim>\<open>compareRowsWithKeys\<close> of the base class on the partition keys. The source enters the loop
  with \<^verbatim>\<open>distance = 1\<close> only; the test \<open>0 < distance\<close> keeps the function total on the other
  values.
\<close>

function probe :: "('r \<Rightarrow> 'r \<Rightarrow> bool) \<Rightarrow> 'r list \<Rightarrow> int \<Rightarrow> int \<Rightarrow> int \<Rightarrow> error + (int \<times> int)" where
  "probe partitionCompare sortedRows left lastPosition distance =
     (if 0 < distance \<and> distance < lastPosition - left then
        (let right = left + distance in
         if partitionCompare (sortedRows ! nat left) (sortedRows ! nat right)
         then Inr (distance, right)
         else if INT_MAX < distance * 2 then Inl SignedOverflow
         else probe partitionCompare sortedRows left lastPosition (distance * 2))
      else Inr (distance, lastPosition))"
  by pat_completeness auto
termination
  by (relation "measure (\<lambda>(c, rows, l, lp, d). nat (lp - l - d))") auto

declare probe.simps [simp del]

lemma probe_unfold:
  "probe c rows l lp d =
     (if 0 < d \<and> d < lp - l then
        if c (rows ! nat l) (rows ! nat (l + d)) then Inr (d, l + d)
        else if INT_MAX < d * 2 then Inl SignedOverflow
        else probe c rows l lp (d * 2)
      else Inr (d, lp))"
  by (subst probe.simps) (simp add: Let_def)

lemma probe_res:
  "probe c rows l lp d = Inr (d', lp') \<Longrightarrow> 0 < d \<Longrightarrow> d \<le> d' \<and> lp' \<le> lp"
proof (induction c rows l lp d rule: probe.induct)
  case (1 c rows l lp d)
  show ?case
  proof (cases "0 < d \<and> d < lp - l")
    case False
    with "1.prems" show ?thesis by (simp add: probe.simps)
  next
    case guard: True
    show ?thesis
    proof (cases "c (rows ! nat l) (rows ! nat (l + d))")
      case True
      with guard "1.prems" show ?thesis by (simp add: probe.simps)
    next
      case False
      with guard "1.prems" have ovf: "\<not> INT_MAX < d * 2"
        by (simp add: probe.simps split: if_splits)
      with guard False "1.prems" have "probe c rows l lp (d * 2) = Inr (d', lp')"
        by (simp add: probe.simps)
      with "1.IH" [OF guard refl False ovf] guard have "d * 2 \<le> d' \<and> lp' \<le> lp"
        by simp
      with guard show ?thesis by arith
    qed
  qed
qed

lemma probe_first:
  "probe c rows l lp 1 = Inr (d', lp') \<Longrightarrow> 1 < lp - l \<Longrightarrow> (d' = 1 \<and> lp' = l + 1) \<or> 2 \<le> d'"
proof -
  assume p: "probe c rows l lp 1 = Inr (d', lp')" and g: "1 < lp - l"
  show ?thesis
  proof (cases "c (rows ! nat l) (rows ! nat (l + 1))")
    case True
    with p g show ?thesis by (simp add: probe.simps [of c rows l lp 1])
  next
    case False
    with p g have "probe c rows l lp 2 = Inr (d', lp')"
      by (simp add: probe.simps [of c rows l lp 1] INT_MAX_def)
    from probe_res [OF this] show ?thesis by simp
  qed
qed

text \<open>
  The \<^verbatim>\<open>while (right < lastPosition)\<close> loop; in its body \<^verbatim>\<open>distance\<close> starts at 1,
  \<^verbatim>\<open>left += distance / 2\<close> and \<^verbatim>\<open>right = left + 1\<close> follow the inner loop.
\<close>

function search :: "('r \<Rightarrow> 'r \<Rightarrow> bool) \<Rightarrow> 'r list \<Rightarrow> int \<Rightarrow> int \<Rightarrow> int \<Rightarrow> error + int" where
  "search partitionCompare sortedRows left right lastPosition =
     (if right < lastPosition then
        (case probe partitionCompare sortedRows left lastPosition 1 of
           Inl e \<Rightarrow> Inl e
         | Inr (distance, lastPosition') \<Rightarrow>
             (let left' = left + distance div 2
              in search partitionCompare sortedRows left' (left' + 1) lastPosition'))
      else Inr right)"
  by pat_completeness auto
termination
proof (relation "measure (\<lambda>(c, rows, l, r, lp). 2 * nat (lp - l) + (if r = l + 1 then 0 else 1))",
    goal_cases)
  case 1
  show ?case by simp
next
  case (2 c rows l r lp x2 d lp' l')
  then have p: "probe c rows l lp 1 = Inr (d, lp')" and l': "l' = l + d div 2" and r: "r < lp"
    by simp_all
  from probe_res [OF p] have d: "1 \<le> d" and lp: "lp' \<le> lp" by simp_all
  show ?case
  proof (cases "r = l + 1")
    case True
    with r have "1 < lp - l" by simp
    from probe_first [OF p this] show ?thesis
    proof
      assume "d = 1 \<and> lp' = l + 1"
      with l' True r show ?thesis by simp
    next
      assume "2 \<le> d"
      then have "1 \<le> d div 2" by simp
      with l' True r lp show ?thesis by simp
    qed
  next
    case False
    from d have "0 \<le> d div 2" by simp
    with lp have "nat (lp' - (l + d div 2)) \<le> nat (lp - l)" by arith
    with l' False show ?thesis by simp
  qed
qed

declare search.simps [simp del]

definition findNextPartitionStartRow :: "('r \<Rightarrow> 'r \<Rightarrow> bool) \<Rightarrow> 'r list \<Rightarrow> int \<Rightarrow> error + int" where
  "findNextPartitionStartRow partitionCompare sortedRows start =
     (let left = start;
          right = left + 1;
          lastPosition = int (length sortedRows)
      in search partitionCompare sortedRows left right lastPosition)"

text \<open>
  The reference for \<^verbatim>\<open>findNextPartitionStartRow\<close>: a linear scan from \<open>start\<close> over the rows
  whose partition key \<open>key\<close> equals that of the row at \<open>start\<close>; its result is the index
  of the first row after them, or the number of rows.
\<close>

definition linearScan :: "('r \<Rightarrow> 'k) \<Rightarrow> 'r list \<Rightarrow> nat \<Rightarrow> nat" where
  "linearScan key rows start =
     start + length (takeWhile (\<lambda>r. key r = key (rows ! start)) (drop start rows))"

text \<open>
  What the search needs of the comparison: from a row \<open>i\<close> of the partition that ends at
  \<open>e\<close>, a later row \<open>j\<close> compares as different exactly when it lies at or after \<open>e\<close>.
\<close>

definition compareFinds :: "('r \<Rightarrow> 'r \<Rightarrow> bool) \<Rightarrow> 'r list \<Rightarrow> int \<Rightarrow> int \<Rightarrow> bool" where
  "compareFinds c rows start e \<longleftrightarrow>
     (\<forall>i j. start \<le> i \<and> i < e \<and> i < j \<and> j < int (length rows) \<longrightarrow>
        (c (rows ! nat i) (rows ! nat j) \<longleftrightarrow> e \<le> j))"

subsection \<open>The build's state and its collaborators\<close>

text \<open>
  The row container, the prefix sort, the spiller with its ordered reader, the memory pool and
  the spill-injection hook are collaborators whose code is outside this file. They are
  parameters of the model, collected in the record \<open>collab\<close>; what a theorem needs of them
  is a hypothesis of that theorem.
  \<^item> \<open>col r i\<close> is the value of column \<open>i\<close> of row \<open>r\<close> (a null is a value like any other);
  \<^item> \<open>partitionCompare\<close> is \<^verbatim>\<open>compareRowsWithKeys(lhs, rhs, partitionKeyInfo_)\<close>;
  \<^item> \<open>prefixSort\<close> is \<^verbatim>\<open>PrefixSort::sort\<close> under \<^verbatim>\<open>compareFlags_\<close>;
  \<^item> \<open>spillRun\<close> is the run that \<^verbatim>\<open>spiller_->spill()\<close> writes for the rows of the container;
  \<^item> \<open>orderedReader\<close> is the stream of the reader made by \<^verbatim>\<open>createOrderedReader\<close> over
    the runs written;
  \<^item> \<open>freeSpace\<close>, \<open>retainedSize\<close>, \<open>sizeIncrement\<close> observe the row container, \<open>usedBytes\<close>,
    \<open>availableReservation\<close>, \<open>maybeReserve\<close>, \<open>release\<close> the pool, \<open>maxRequiredBytes\<close> the
    prefix sort;
  \<^item> \<open>triggerSpill k\<close> is the answer of the \<open>k\<close>-th call of \<^verbatim>\<open>testingTriggerSpill\<close>.
\<close>

record spill_config =
  minSpillableReservationPct :: int
  spillableReservationGrowthPct :: int

record ('r, 'v, 'p) collab =
  numPartitionKeys :: nat
  col :: "'r \<Rightarrow> nat \<Rightarrow> 'v"
  partitionCompare :: "'r \<Rightarrow> 'r \<Rightarrow> bool"
  prefixSort :: "'r list \<Rightarrow> 'r list"
  spillRun :: "'r list \<Rightarrow> 'r list"
  orderedReader :: "'r list list \<Rightarrow> 'r list"
  spillConfig :: "spill_config option"
  triggerSpill :: "nat \<Rightarrow> bool"
  freeSpace :: "'r list \<Rightarrow> int \<times> int"
  retainedSize :: "'r list \<Rightarrow> int"
  sizeIncrement :: "'r list \<Rightarrow> int \<Rightarrow> int \<Rightarrow> int"
  maxRequiredBytes :: "'r list \<Rightarrow> int"
  usedBytes :: "'p \<Rightarrow> 'r list \<Rightarrow> int"
  availableReservation :: "'p \<Rightarrow> 'r list \<Rightarrow> int"
  maybeReserve :: "int \<Rightarrow> 'p \<Rightarrow> bool \<times> 'p"
  release :: "'p \<Rightarrow> 'p"

text \<open>
  The members of \<^verbatim>\<open>SortWindowBuild\<close> (and of its base class) that the functions of the file
  read and write, named as in the source without the final underscore. \<open>spiller\<close> holds the runs written so far, \<open>merge\<close> the rows the ordered
  reader has not yet delivered; \<open>None\<close> is the null pointer. \<open>hookCalls\<close> counts the calls of
  \<^verbatim>\<open>testingTriggerSpill\<close>, \<open>warnings\<close> the \<^verbatim>\<open>LOG(WARNING)\<close> lines written.
\<close>

record ('r, 'p) build =
  numRows :: int
  data :: "'r list"
  sortedRows :: "'r list"
  partitionStartRows :: "int list"
  currentPartition :: int
  spiller :: "'r list list option"
  merge :: "'r list option"
  pool :: 'p
  hookCalls :: nat
  warnings :: nat

text \<open>
  Modelled from the spec: the state after the constructor. The declaration of
  \<^verbatim>\<open>currentPartition_\<close> and \<^verbatim>\<open>numRows_\<close> (the header of the base class) is not in the
  sources; the spec has the cursor start before the first partition, and the row count at
  zero. The constructor of the file empties \<^verbatim>\<open>sortedRows_\<close> and \<^verbatim>\<open>partitionStartRows_\<close>.
\<close>

definition newBuild :: "'p \<Rightarrow> ('r, 'p) build" where
  "newBuild p =
     \<lparr>numRows = 0, data = [], sortedRows = [], partitionStartRows = [],
      currentPartition = - 1, spiller = None, merge = None, pool = p,
      hookCalls = 0, warnings = 0\<rparr>"

text \<open>Conversions of C++: to \<^verbatim>\<open>size_t\<close> (64 bits, unsigned) and to \<^verbatim>\<open>int\<close> (32 bits, signed).\<close>

definition to_size_t :: "int \<Rightarrow> int" where
  "to_size_t x = x mod 2 ^ 64"

definition to_int :: "int \<Rightarrow> int" where
  "to_int x = (x + 2 ^ 31) mod 2 ^ 32 - 2 ^ 31"

text \<open>Division of C++ integers, which truncates towards zero.\<close>

definition tdiv :: "int \<Rightarrow> int \<Rightarrow> int" where
  "tdiv a b = sgn a * sgn b * (\<bar>a\<bar> div \<bar>b\<bar>)"

definition testingTriggerSpill :: "('r, 'v, 'p) collab \<Rightarrow> ('r, 'p) build \<Rightarrow> bool \<times> ('r, 'p) build" where
  "testingTriggerSpill env s = (triggerSpill env (hookCalls s), s\<lparr>hookCalls := hookCalls s + 1\<rparr>)"

subsection \<open>Spilling\<close>

definition setupSpiller :: "('r, 'p) build \<Rightarrow> error + ('r, 'p) build" where
  "setupSpiller s =
     (if spiller s \<noteq> None then Inl (CheckFailed ''spiller_ is not null'')
      else Inr (s\<lparr>spiller := Some []\<rparr>))"

text \<open>
  \<^verbatim>\<open>spill()\<close>: the spiller writes the rows of the container as one run, the container is
  cleared and the pool releases its unused reservation.
\<close>

definition spill :: "('r, 'v, 'p) collab \<Rightarrow> ('r, 'p) build \<Rightarrow> error + ('r, 'p) build" where
  "spill env s =
     (case (if spiller s = None then setupSpiller s else Inr s) of
        Inl e \<Rightarrow> Inl e
      | Inr s1 \<Rightarrow>
          Inr (s1\<lparr>spiller := Some (the (spiller s1) @ [spillRun env (data s1)]),
                  data := [],
                  pool := release env (pool s1)\<rparr>))"

subsection \<open>addInput and the memory checks\<close>

text \<open>
  \<^verbatim>\<open>ensureInputFits\<close> in three parts: the test whether reservation, free rows and free
  variable-length space cover the batch (the nested \<^verbatim>\<open>if\<close> that returns early), the size of
  the reservation asked for otherwise, and the function itself. The section guard around
  \<^verbatim>\<open>maybeReserve\<close> concerns the memory arbitrator's thread and has no part in the model.
\<close>

definition inputFitsReservation ::
  "('r, 'v, 'p) collab \<Rightarrow> spill_config \<Rightarrow> 'r list \<Rightarrow> 'r list \<Rightarrow> 'p \<Rightarrow> bool" where
  "inputFitsReservation env cfg input rows p =
     (let (freeRows, outOfLineFreeBytes) = freeSpace env rows;
          outOfLineBytes = retainedSize env rows - outOfLineFreeBytes;
          outOfLineBytesPerRow = tdiv outOfLineBytes (int (length rows));
          currentUsage = usedBytes env p rows;
          minReservationBytes = tdiv (currentUsage * minSpillableReservationPct cfg) 100;
          availableReservationBytes = availableReservation env p rows
      in availableReservationBytes \<ge> minReservationBytes \<and>
         freeRows > int (length input) \<and>
         (outOfLineBytes = 0 \<or>
          outOfLineFreeBytes \<ge> outOfLineBytesPerRow * int (length input)))"

definition targetIncrementBytes ::
  "('r, 'v, 'p) collab \<Rightarrow> spill_config \<Rightarrow> 'r list \<Rightarrow> 'r list \<Rightarrow> 'p \<Rightarrow> int" where
  "targetIncrementBytes env cfg input rows p =
     (let (freeRows, outOfLineFreeBytes) = freeSpace env rows;
          outOfLineBytes = retainedSize env rows - outOfLineFreeBytes;
          outOfLineBytesPerRow = tdiv outOfLineBytes (int (length rows));
          currentUsage = usedBytes env p rows;
          incrementBytes =
            sizeIncrement env rows (int (length input))
              (outOfLineBytesPerRow * int (length input))
      in max (incrementBytes * 2)
           (tdiv (currentUsage * spillableReservationGrowthPct cfg) 100))"

definition ensureInputFits ::
  "('r, 'v, 'p) collab \<Rightarrow> 'r list \<Rightarrow> ('r, 'p) build \<Rightarrow> error + ('r, 'p) build" where
  "ensureInputFits env input s =
     (case spillConfig env of
        None \<Rightarrow> Inr s
      | Some cfg \<Rightarrow>
          if length (data s) = 0 then Inr s
          else
            (case testingTriggerSpill env s of
               (True, s1) \<Rightarrow> spill env s1
             | (False, s1) \<Rightarrow>
                 if inputFitsReservation env cfg input (data s1) (pool s1) then Inr s1
                 else
                   (case maybeReserve env
                           (targetIncrementBytes env cfg input (data s1) (pool s1)) (pool s1) of
                      (True, pool') \<Rightarrow> Inr (s1\<lparr>pool := pool'\<rparr>)
                    | (False, pool') \<Rightarrow>
                        Inr (s1\<lparr>pool := pool', warnings := warnings s1 + 1\<rparr>))))"

text \<open>
  \<^verbatim>\<open>addInput\<close>: a batch is the list of its rows; decoding is the identity of the model. Every
  row of the batch becomes a new row of the container, in order.
\<close>

definition addInput ::
  "('r, 'v, 'p) collab \<Rightarrow> 'r list \<Rightarrow> ('r, 'p) build \<Rightarrow> error + ('r, 'p) build" where
  "addInput env input s =
     (case ensureInputFits env input s of
        Inl e \<Rightarrow> Inl e
      | Inr s1 \<Rightarrow>
          Inr (s1\<lparr>data := data s1 @ input, numRows := numRows s1 + int (length input)\<rparr>))"

definition ensureSortFits :: "('r, 'v, 'p) collab \<Rightarrow> ('r, 'p) build \<Rightarrow> error + ('r, 'p) build" where
  "ensureSortFits env s =
     (case spillConfig env of
        None \<Rightarrow> Inr s
      | Some cfg \<Rightarrow>
          (case testingTriggerSpill env s of
             (True, s1) \<Rightarrow> spill env s1
           | (False, s1) \<Rightarrow>
               if spiller s1 \<noteq> None then Inr s1
               else
                 (let sortBufferToReserve =
                        to_size_t (numRows s1 * (8 + 4) + maxRequiredBytes env (data s1))
                  in case maybeReserve env sortBufferToReserve (pool s1) of
                       (True, pool') \<Rightarrow> Inr (s1\<lparr>pool := pool'\<rparr>)
                     | (False, pool') \<Rightarrow>
                         Inr (s1\<lparr>pool := pool', warnings := warnings s1 + 1\<rparr>))))"

subsection \<open>Sorting and the partition boundaries\<close>

lemma search_stop: "\<not> r < lp \<Longrightarrow> search c rows l r lp = Inr r"
  by (subst search.simps) simp

lemma search_step:
  "r < lp \<Longrightarrow>
   search c rows l r lp =
     (case probe c rows l lp 1 of
        Inl e \<Rightarrow> Inl e
      | Inr (d, lp') \<Rightarrow> search c rows (l + d div 2) (l + d div 2 + 1) lp')"
  by (subst search.simps) (simp add: Let_def split: sum.splits)

lemma search_gt:
  "search c rows l r lp = Inr x \<Longrightarrow> r = l + 1 \<Longrightarrow> l < x"
proof (induction c rows l r lp rule: search.induct)
  case (1 c rows l r lp)
  show ?case
  proof (cases "r < lp")
    case False
    from search_stop [OF False, of c rows l] "1.prems" show ?thesis by simp
  next
    case True
    note step = search_step [OF True, of c rows l]
    from "1.prems"(1) obtain d lp' where p: "probe c rows l lp 1 = Inr (d, lp')"
      unfolding step by (auto split: sum.splits)
    from "1.prems"(1) have "search c rows (l + d div 2) (l + d div 2 + 1) lp' = Inr x"
      unfolding step by (simp add: p)
    from "1.IH" [OF True p refl refl this] have "l + d div 2 < x" by simp
    moreover from probe_res [OF p] have "0 \<le> d div 2" by simp
    ultimately show ?thesis by simp
  qed
qed

lemma findNextPartitionStartRow_gt:
  "findNextPartitionStartRow c rows start = Inr x \<Longrightarrow> start < x"
  by (simp add: findNextPartitionStartRow_def Let_def search_gt)

text \<open>
  The \<^verbatim>\<open>while (start < sortedRows_.size())\<close> loop of \<^verbatim>\<open>computePartitionStartRows\<close>;
  \<open>starts\<close> is \<^verbatim>\<open>partitionStartRows_\<close>.
\<close>

function startRowsLoop ::
  "('r \<Rightarrow> 'r \<Rightarrow> bool) \<Rightarrow> 'r list \<Rightarrow> int \<Rightarrow> int list \<Rightarrow> error + int list" where
  "startRowsLoop c rows start starts =
     (if start < int (length rows) then
        (case findNextPartitionStartRow c rows start of
           Inl e \<Rightarrow> Inl e
         | Inr next \<Rightarrow> startRowsLoop c rows next (starts @ [next]))
      else Inr starts)"
  by pat_completeness auto
termination
proof (relation "measure (\<lambda>(c, rows, start, starts). nat (int (length rows) - start))", goal_cases)
  case 1
  show ?case by simp
next
  case (2 c rows start starts x2)
  from findNextPartitionStartRow_gt [OF "2"(2)] "2"(1) show ?case by simp
qed

declare startRowsLoop.simps [simp del]

definition computePartitionStartRows ::
  "('r, 'v, 'p) collab \<Rightarrow> ('r, 'p) build \<Rightarrow> error + ('r, 'p) build" where
  "computePartitionStartRows env s =
     (let s1 = s\<lparr>partitionStartRows := partitionStartRows s @ [0]\<rparr>
      in if \<not> int (length (sortedRows s1)) > 0
         then Inl (CheckFailed ''sortedRows_.size() > 0'')
         else
           (case startRowsLoop (partitionCompare env) (sortedRows s1) 0 (partitionStartRows s1) of
              Inl e \<Rightarrow> Inl e
            | Inr starts \<Rightarrow> Inr (s1\<lparr>partitionStartRows := starts\<rparr>)))"

text \<open>
  \<^verbatim>\<open>sortPartitions\<close>: \<^verbatim>\<open>listRows\<close> lists at most \<^verbatim>\<open>numRows_\<close> rows of the container into
  \<^verbatim>\<open>sortedRows_\<close>, then the prefix sort orders them.
\<close>

definition sortPartitions ::
  "('r, 'v, 'p) collab \<Rightarrow> ('r, 'p) build \<Rightarrow> error + ('r, 'p) build" where
  "sortPartitions env s =
     computePartitionStartRows env
       (s\<lparr>sortedRows := prefixSort env (take (nat (numRows s)) (data s))\<rparr>)"

text \<open>
  \<^verbatim>\<open>noMoreInput\<close>. Modelled from the spec: \<^verbatim>\<open>finishSpill\<close> yields exactly one partition group,
  so the check \<^verbatim>\<open>VELOX_CHECK_EQ(spillPartitionSet.size(), 1)\<close> passes, and the ordered reader
  over it delivers \<open>orderedReader\<close> of the runs written.
\<close>

definition noMoreInput ::
  "('r, 'v, 'p) collab \<Rightarrow> ('r, 'p) build \<Rightarrow> error + ('r, 'p) build" where
  "noMoreInput env s =
     (if numRows s = 0 then Inr s
      else
        (case ensureSortFits env s of
           Inl e \<Rightarrow> Inl e
         | Inr s1 \<Rightarrow>
             (case (if spiller s1 \<noteq> None then
                      (case spill env s1 of
                         Inl e \<Rightarrow> Inl e
                       | Inr s2 \<Rightarrow>
                           if merge s2 \<noteq> None then Inl (CheckFailed ''merge_ is not null'')
                           else Inr (s2\<lparr>merge := Some (orderedReader env (the (spiller s2)))\<rparr>))
                    else sortPartitions env s1) of
                Inl e \<Rightarrow> Inl e
              | Inr s3 \<Rightarrow> Inr (s3\<lparr>pool := release env (pool s3)\<rparr>))))"

subsection \<open>Reading the partitions\<close>

text \<open>
  The loop over the partition key columns in \<^verbatim>\<open>loadNextPartitionFromSpill\<close>: some column
  \<open>i < numPartitionKeys_\<close> on which \<^verbatim>\<open>data_->compare\<close> is not zero. Modelled from the spec:
  under the flags \<^verbatim>\<open>CompareFlags::equality(kNullAsValue)\<close> the comparison of the row container
  is zero exactly when the two column values are equal, a null being a value.
\<close>

definition partitionKeysDiffer :: "('r, 'v, 'p) collab \<Rightarrow> 'r \<Rightarrow> 'r \<Rightarrow> bool" where
  "partitionKeysDiffer env lastRow nextRow =
     list_ex (\<lambda>i. col env lastRow i \<noteq> col env nextRow i) [0..<numPartitionKeys env]"

text \<open>
  The \<^verbatim>\<open>for (;;)\<close> loop of \<^verbatim>\<open>loadNextPartitionFromSpill\<close> over the rows the reader still
  holds: the result is the buffer \<^verbatim>\<open>sortedRows_\<close> and the rows left in the reader.
\<close>

fun loadRows :: "('r, 'v, 'p) collab \<Rightarrow> 'r list \<Rightarrow> 'r list \<Rightarrow> 'r list \<times> 'r list" where
  "loadRows env [] buf = (buf, [])"
| "loadRows env (nextRow # rest) buf =
     (if buf \<noteq> [] \<and> partitionKeysDiffer env (last buf) nextRow then (buf, nextRow # rest)
      else loadRows env rest (buf @ [nextRow]))"

definition loadNextPartitionFromSpill ::
  "('r, 'v, 'p) collab \<Rightarrow> ('r, 'p) build \<Rightarrow> ('r, 'p) build" where
  "loadNextPartitionFromSpill env s =
     (let (buf, rest) = loadRows env (the (merge s)) []
      in s\<lparr>sortedRows := buf, data := buf, merge := Some rest\<rparr>)"

text \<open>
  \<^verbatim>\<open>nextPartition\<close>: the partition view is the list of the rows of its range. The check
  \<^verbatim>\<open>VELOX_CHECK_LE(currentPartition_, partitionStartRows_.size() - 2)\<close> compares an \<^verbatim>\<open>int\<close>
  with a \<^verbatim>\<open>size_t\<close>, so both sides are taken as \<^verbatim>\<open>size_t\<close>.
\<close>

definition nextPartition :: "('r, 'p) build \<Rightarrow> error + ('r list \<times> ('r, 'p) build)" where
  "nextPartition s =
     (if merge s \<noteq> None then
        (if sortedRows s = [] then Inl (CheckFailed ''No window partitions available'')
         else Inr (sortedRows s, s))
      else if partitionStartRows s = [] then Inl (CheckFailed ''No window partitions available'')
      else
        (let s1 = s\<lparr>currentPartition := currentPartition s + 1\<rparr>
         in if \<not> to_size_t (currentPartition s1) \<le>
                  to_size_t (int (length (partitionStartRows s1)) - 2)
            then Inl (CheckFailed ''All window partitions consumed'')
            else
              (let partitionSize =
                     partitionStartRows s1 ! nat (currentPartition s1 + 1) -
                     partitionStartRows s1 ! nat (currentPartition s1);
                   partition =
                     take (nat partitionSize)
                       (drop (nat (partitionStartRows s1 ! nat (currentPartition s1)))
                          (sortedRows s1))
               in Inr (partition, s1))))"

definition hasNextPartition ::
  "('r, 'v, 'p) collab \<Rightarrow> ('r, 'p) build \<Rightarrow> bool \<times> ('r, 'p) build" where
  "hasNextPartition env s =
     (if merge s \<noteq> None then
        (let s1 = loadNextPartitionFromSpill env s in (sortedRows s1 \<noteq> [], s1))
      else
        (length (partitionStartRows s) > 0 \<and>
         currentPartition s < to_int (to_size_t (int (length (partitionStartRows s)) - 2)), s))"

subsection \<open>The caller's protocol\<close>

text \<open>
  The window operator feeds the batches one after the other, calls \<^verbatim>\<open>noMoreInput\<close>, and
  then asks \<^verbatim>\<open>hasNextPartition\<close> before every \<^verbatim>\<open>nextPartition\<close> until the answer is no.
  An error ends the run.
\<close>

fun addInputs ::
  "('r, 'v, 'p) collab \<Rightarrow> 'r list list \<Rightarrow> ('r, 'p) build \<Rightarrow> error + ('r, 'p) build" where
  "addInputs env [] s = Inr s"
| "addInputs env (input # inputs) s =
     (case addInput env input s of
        Inl e \<Rightarrow> Inl e
      | Inr s1 \<Rightarrow> addInputs env inputs s1)"

lemma loadRows_length:
  "loadRows env stream buf = (buf', rest) \<Longrightarrow>
   length buf' + length rest = length buf + length stream \<and> length buf \<le> length buf'"
proof (induction stream arbitrary: buf)
  case Nil
  then show ?case by simp
next
  case (Cons r stream)
  show ?case
  proof (cases "buf \<noteq> [] \<and> partitionKeysDiffer env (last buf) r")
    case True
    with Cons.prems show ?thesis by simp
  next
    case False
    with Cons.prems have "loadRows env stream (buf @ [r]) = (buf', rest)" by simp
    from Cons.IH [OF this] show ?thesis by simp
  qed
qed

text \<open>What is left to read: rows of the reader, or partitions after the cursor.\<close>

definition remaining :: "('r, 'p) build \<Rightarrow> nat" where
  "remaining s =
     (case merge s of
        Some stream \<Rightarrow> length stream
      | None \<Rightarrow>
          nat (to_int (to_size_t (int (length (partitionStartRows s)) - 2)) - currentPartition s))"

lemma nextPartition_remaining:
  assumes "hasNextPartition env s = (True, s1)" and "nextPartition s1 = Inr (v, s2)"
  shows "remaining s2 < remaining s"
proof (cases "merge s")
  case None
  with assms(1) have s1: "s1 = s"
    and lt: "currentPartition s < to_int (to_size_t (int (length (partitionStartRows s)) - 2))"
    by (auto simp: hasNextPartition_def)
  from assms(2) None s1 have "s2 = s\<lparr>currentPartition := currentPartition s + 1\<rparr>"
    by (auto simp: nextPartition_def Let_def split: if_splits)
  with None lt show ?thesis by (simp add: remaining_def)
next
  case (Some stream)
  obtain buf rest where l: "loadRows env stream [] = (buf, rest)" by (cases "loadRows env stream []")
  with Some assms(1) have s1: "s1 = s\<lparr>sortedRows := buf, data := buf, merge := Some rest\<rparr>"
    and ne: "buf \<noteq> []"
    by (auto simp: hasNextPartition_def loadNextPartitionFromSpill_def Let_def)
  from assms(2) s1 have "s2 = s1"
    by (auto simp: nextPartition_def split: if_splits)
  moreover from loadRows_length [OF l] ne have "length rest < length stream"
    by (cases buf) auto
  ultimately show ?thesis using Some s1 by (simp add: remaining_def)
qed

function drain ::
  "('r, 'v, 'p) collab \<Rightarrow> ('r, 'p) build \<Rightarrow> error + ('r list list \<times> ('r, 'p) build)" where
  "drain env s =
     (case hasNextPartition env s of
        (False, s1) \<Rightarrow> Inr ([], s1)
      | (True, s1) \<Rightarrow>
          (case nextPartition s1 of
             Inl e \<Rightarrow> Inl e
           | Inr (v, s2) \<Rightarrow>
               (case drain env s2 of
                  Inl e \<Rightarrow> Inl e
                | Inr (vs, s3) \<Rightarrow> Inr (v # vs, s3))))"
  by pat_completeness auto
termination
proof (relation "measure (\<lambda>(env, s). remaining s)", goal_cases)
  case 1
  show ?case by simp
next
  case (2 env s x1 s1 x3 v s2)
  then have "hasNextPartition env s = (True, s1)" and "nextPartition s1 = Inr (v, s2)"
    by simp_all
  from nextPartition_remaining [OF this] show ?case by simp
qed

declare drain.simps [simp del]

text \<open>
  Any sequence of calls of the public functions; the results of \<^verbatim>\<open>hasNextPartition\<close> and
  \<^verbatim>\<open>nextPartition\<close> are dropped, the state is kept.
\<close>

datatype 'r call = AddInput "'r list" | NoMoreInput | HasNextPartition | NextPartition

fun doCall :: "('r, 'v, 'p) collab \<Rightarrow> 'r call \<Rightarrow> ('r, 'p) build \<Rightarrow> error + ('r, 'p) build" where
  "doCall env (AddInput input) s = addInput env input s"
| "doCall env NoMoreInput s = noMoreInput env s"
| "doCall env HasNextPartition s = Inr (snd (hasNextPartition env s))"
| "doCall env NextPartition s =
     (case nextPartition s of Inl e \<Rightarrow> Inl e | Inr (v, s1) \<Rightarrow> Inr s1)"

fun runCalls :: "('r, 'v, 'p) collab \<Rightarrow> 'r call list \<Rightarrow> ('r, 'p) build \<Rightarrow> error + ('r, 'p) build" where
  "runCalls env [] s = Inr s"
| "runCalls env (c # cs) s =
     (case doCall env c s of Inl e \<Rightarrow> Inl e | Inr s1 \<Rightarrow> runCalls env cs s1)"

text \<open>
  While nothing was spilled the row container holds all the rows counted by \<^verbatim>\<open>numRows_\<close>; the
  reader exists only after a spill.
\<close>

definition rowsInStore :: "('r, 'p) build \<Rightarrow> bool" where
  "rowsInStore s \<longleftrightarrow>
     (spiller s = None \<longrightarrow> int (length (data s)) = numRows s) \<and>
     (merge s \<noteq> None \<longrightarrow> spiller s \<noteq> None)"

definition emptyCheck :: error where
  "emptyCheck = CheckFailed ''sortedRows_.size() > 0''"

text \<open>
  In memory mode the boundary list is empty or has at least two entries, and the cursor
  \<^verbatim>\<open>currentPartition_\<close> points before the first or at one of the partitions; the bounds keep the
  conversions between \<^verbatim>\<open>int\<close> and \<^verbatim>\<open>size_t\<close> exact.
\<close>

definition memoryOk :: "('r, 'p) build \<Rightarrow> bool" where
  "memoryOk s \<longleftrightarrow>
     (merge s = None \<longrightarrow>
        partitionStartRows s = [] \<or>
        (2 \<le> length (partitionStartRows s) \<and> int (length (partitionStartRows s)) \<le> 2 ^ 31 \<and>
         - 1 \<le> currentPartition s \<and>
         currentPartition s \<le> int (length (partitionStartRows s)) - 2))"

subsection \<open>An instance of the collaborators\<close>

text \<open>
  Rows with one partition key column (column 0) and one payload column, no sort keys. The
  sorts are stable sorts on the partition key, the ordered reader merges the runs in that
  order, the row container never has free space and the pool grants a reservation only
  within its budget. \<open>exampleCollab cfg hook\<close> has the spill configuration \<open>cfg\<close> and a hook
  that always answers \<open>hook\<close>.
\<close>

definition exampleCollab :: "spill_config option \<Rightarrow> bool \<Rightarrow> (nat \<times> nat, nat, int) collab" where
  "exampleCollab cfg hook =
     \<lparr>numPartitionKeys = 1,
      col = (\<lambda>r i. if i = 0 then fst r else snd r),
      partitionCompare = (\<lambda>a b. fst a < fst b),
      prefixSort = sort_key fst,
      spillRun = sort_key fst,
      orderedReader = (\<lambda>runs. sort_key fst (concat runs)),
      spillConfig = cfg,
      triggerSpill = (\<lambda>k. hook),
      freeSpace = (\<lambda>rows. (0, 0)),
      retainedSize = (\<lambda>rows. 0),
      sizeIncrement = (\<lambda>rows n bytes. 16 * n + bytes),
      maxRequiredBytes = (\<lambda>rows. 8 * int (length rows)),
      usedBytes = (\<lambda>p rows. 16 * int (length rows)),
      availableReservation = (\<lambda>p rows. p),
      maybeReserve = (\<lambda>bytes p. if bytes \<le> p then (True, p - bytes) else (False, p)),
      release = (\<lambda>p. p)\<rparr>"

definition exampleConfig :: spill_config where
  "exampleConfig = \<lparr>minSpillableReservationPct = 5, spillableReservationGrowthPct = 10\<rparr>"

definition exampleMergeState :: "(nat \<times> nat, int) build" where
  "exampleMergeState =
     (newBuild 0)\<lparr>numRows := 3, data := [(1, 10), (1, 11)], sortedRows := [(1, 10), (1, 11)],
       spiller := Some [[(1, 10), (1, 11), (2, 12)]], merge := Some [(2, 12)]\<rparr>"

definition exampleFullState :: "(nat \<times> nat, int) build" where
  "exampleFullState = (newBuild 0)\<lparr>numRows := 1, data := [(1, 10)]\<rparr>"

definition exampleReaderState :: "(nat \<times> nat, int) build" where
  "exampleReaderState =
     (newBuild 0)\<lparr>numRows := 4, data := [(0, 9)], sortedRows := [(0, 9)],
       spiller := Some [[(0, 9), (1, 10), (1, 11), (2, 12), (2, 13)]],
       merge := Some [(1, 10), (1, 11), (2, 12), (2, 13)]\<rparr>"

definition exampleLastPartitionState :: "(nat \<times> nat, int) build" where
  "exampleLastPartitionState =
     \<lparr>numRows = 2, data = [(1, 10), (1, 11)], sortedRows = [(1, 10), (1, 11)],
      partitionStartRows = [], currentPartition = - 1,
      spiller = Some [[(1, 10)], [(1, 11)], []], merge = Some [], pool = 0,
      hookCalls = 2, warnings = 0\<rparr>"

definition exampleDrainedState :: "(nat \<times> nat, int) build" where
  "exampleDrainedState =
     \<lparr>numRows = 3, data = [(2, 12), (1, 10), (1, 11)],
      sortedRows = [(1, 10), (1, 11), (2, 12)], partitionStartRows = [0, 2, 3],
      currentPartition = 1, spiller = None, merge = None, pool = 0,
      hookCalls = 0, warnings = 0\<rparr>"

section \<open>Properties\<close>

subsection \<open>findNextPartitionStartRow and the linear scan\<close>

lemma linearScan_bounds:
  assumes "start < length rows"
  shows "start < linearScan key rows start \<and> linearScan key rows start \<le> length rows"
proof -
  let ?P = "\<lambda>r. key r = key (rows ! start)"
  from assms have d: "drop start rows = rows ! start # drop (Suc start) rows"
    by (simp add: Cons_nth_drop_Suc)
  then have "0 < length (takeWhile ?P (drop start rows))" by simp
  moreover have "length (takeWhile ?P (drop start rows)) \<le> length (drop start rows)"
    by (rule length_takeWhile_le)
  ultimately show ?thesis using assms by (simp add: linearScan_def)
qed

lemma linearScan_same:
  assumes "start \<le> i" and "i < linearScan key rows start"
  shows "key (rows ! i) = key (rows ! start)"
proof -
  let ?P = "\<lambda>r. key r = key (rows ! start)"
  let ?t = "takeWhile ?P (drop start rows)"
  from assms have i: "i - start < length ?t" by (simp add: linearScan_def)
  then have "?t ! (i - start) = drop start rows ! (i - start)" by (rule takeWhile_nth)
  moreover from i have "?P (?t ! (i - start))" by (meson nth_mem set_takeWhileD)
  moreover from i have "i - start < length (drop start rows)"
    using length_takeWhile_le [of ?P "drop start rows"] by linarith
  ultimately show ?thesis using assms(1) by simp
qed

lemma linearScan_differs:
  assumes "linearScan key rows start < length rows"
  shows "key (rows ! linearScan key rows start) \<noteq> key (rows ! start)"
proof -
  let ?P = "\<lambda>r. key r = key (rows ! start)"
  let ?t = "takeWhile ?P (drop start rows)"
  from assms have "length ?t < length (drop start rows)" by (simp add: linearScan_def)
  then have "\<not> ?P (drop start rows ! length ?t)" by (rule nth_length_takeWhile)
  moreover from assms have "drop start rows ! length ?t = rows ! (start + length ?t)"
    by (simp add: linearScan_def)
  ultimately show ?thesis by (simp add: linearScan_def)
qed

lemma linearScan_sorted_differs:
  fixes key :: "'r \<Rightarrow> 'k :: linorder"
  assumes s: "sorted (map key rows)" and "start < length rows"
    and "linearScan key rows start \<le> j" and "j < length rows"
  shows "key (rows ! j) \<noteq> key (rows ! start)"
proof -
  let ?e = "linearScan key rows start"
  from assms linearScan_bounds [of start rows key] have e: "start < ?e" "?e < length rows" by auto
  from s e have "key (rows ! start) \<le> key (rows ! ?e)"
    by (simp add: sorted_iff_nth_mono)
  with linearScan_differs [OF e(2)] have "key (rows ! start) < key (rows ! ?e)" by simp
  moreover from s assms(3,4) have "key (rows ! ?e) \<le> key (rows ! j)"
    by (simp add: sorted_iff_nth_mono)
  ultimately show ?thesis by simp
qed


lemma probe_correct:
  "compareFinds c rows start e \<Longrightarrow> start \<le> l \<Longrightarrow> l < e \<Longrightarrow> e \<le> lp \<Longrightarrow>
   lp \<le> int (length rows) \<Longrightarrow> 1 \<le> d \<Longrightarrow> l + d div 2 < e \<Longrightarrow> e - l \<le> 2 ^ 30 \<Longrightarrow>
   \<exists>d' lp'. probe c rows l lp d = Inr (d', lp') \<and> l + d' div 2 < e \<and> e \<le> lp' \<and> lp' \<le> lp"
proof (induction c rows l lp d rule: probe.induct)
  case (1 c rows l lp d)
  note u = probe_unfold [of c rows l lp d]
  show ?case
  proof (cases "d < lp - l")
    case False
    with "1.prems" show ?thesis unfolding u by simp
  next
    case True
    with "1.prems" have j: "l < l + d" "l + d < int (length rows)" by simp_all
    with "1.prems"(1,2,3) have c: "c (rows ! nat l) (rows ! nat (l + d)) \<longleftrightarrow> e \<le> l + d"
      unfolding compareFinds_def by blast
    show ?thesis
    proof (cases "e \<le> l + d")
      case hit: True
      with c True "1.prems" show ?thesis unfolding u by simp
    next
      case miss: False
      with "1.prems" have small: "d < 2 ^ 30" by simp
      then have no: "\<not> INT_MAX < d * 2" by (simp add: INT_MAX_def)
      from miss have half: "l + d * 2 div 2 < e" by simp
      from "1.prems" have g: "0 < d \<and> d < lp - l" using True by simp
      from c miss have nc: "\<not> c (rows ! nat l) (rows ! nat (l + d))" by simp
      from "1.prems"(6) have d2: "1 \<le> d * 2" by simp
      from "1.IH" [OF g refl nc no "1.prems"(1-5) d2 half "1.prems"(8)]
      obtain d' lp' where "probe c rows l lp (d * 2) = Inr (d', lp')"
        "l + d' div 2 < e" "e \<le> lp'" "lp' \<le> lp" by blast
      with g nc no show ?thesis unfolding u by simp
    qed
  qed
qed

lemma search_correct:
  "compareFinds c rows start e \<Longrightarrow> start \<le> l \<Longrightarrow> l < e \<Longrightarrow> e \<le> lp \<Longrightarrow>
   lp \<le> int (length rows) \<Longrightarrow> r = l + 1 \<Longrightarrow> e - start \<le> 2 ^ 30 \<Longrightarrow>
   search c rows l r lp = Inr e"
proof (induction c rows l r lp rule: search.induct)
  case (1 c rows l r lp)
  show ?case
  proof (cases "r < lp")
    case False
    with "1.prems" have "r = e" by simp
    with search_stop [OF False, of c rows l] show ?thesis by simp
  next
    case True
    note step = search_step [OF True, of c rows l]
    from "1.prems" have "l + 1 div 2 < e" "e - l \<le> 2 ^ 30" by simp_all
    from probe_correct [OF "1.prems"(1-5) _ this]
    obtain d lp' where p: "probe c rows l lp 1 = Inr (d, lp')"
      and h: "l + d div 2 < e" "e \<le> lp'" "lp' \<le> lp" by auto
    from probe_res [OF p] have "0 \<le> d div 2" by simp
    with "1.prems" h have pre: "start \<le> l + d div 2" "lp' \<le> int (length rows)" by simp_all
    from "1.IH" [OF True p refl refl "1.prems"(1) pre(1) h(1,2) pre(2) refl "1.prems"(7)]
    show ?thesis unfolding step by (simp add: p)
  qed
qed


lemma compareFinds_linearScan:
  fixes key :: "'r \<Rightarrow> 'k :: linorder"
  assumes s: "sorted (map key rows)" and st: "start < length rows"
    and cmp: "\<forall>i j. i < j \<and> j < length rows \<longrightarrow>
      (c (rows ! i) (rows ! j) \<longleftrightarrow> key (rows ! i) \<noteq> key (rows ! j))"
  shows "compareFinds c rows (int start) (int (linearScan key rows start))"
  unfolding compareFinds_def
proof (intro allI impI)
  fix i j :: int
  let ?e = "linearScan key rows start"
  assume a: "int start \<le> i \<and> i < int ?e \<and> i < j \<and> j < int (length rows)"
  then have ij: "nat i < nat j" "nat j < length rows" "start \<le> nat i" "nat i < ?e" by auto
  with cmp have "c (rows ! nat i) (rows ! nat j) \<longleftrightarrow> key (rows ! nat i) \<noteq> key (rows ! nat j)"
    by blast
  also from linearScan_same [OF ij(3,4)] have "key (rows ! nat i) = key (rows ! start)" .
  also have "key (rows ! start) \<noteq> key (rows ! nat j) \<longleftrightarrow> ?e \<le> nat j"
  proof (cases "?e \<le> nat j")
    case True
    from linearScan_sorted_differs [OF s st True ij(2)] True show ?thesis by simp
  next
    case False
    with ij have "start \<le> nat j" "nat j < ?e" by linarith+
    from linearScan_same [OF this] False show ?thesis by simp
  qed
  also from a have "?e \<le> nat j \<longleftrightarrow> int ?e \<le> j" by auto
  finally show "c (rows ! nat i) (rows ! nat j) \<longleftrightarrow> int ?e \<le> j" .
qed

text \<open>
  On rows sorted by the partition key, with a comparison that tells rows of different keys
  apart, \<^verbatim>\<open>findNextPartitionStartRow\<close> returns what the linear scan returns, as long as the
  partition that begins at \<open>start\<close> has at most \<open>2 ^ 30\<close> rows.
\<close>

lemma findNextPartitionStartRow_linearScan:
  fixes key :: "'r \<Rightarrow> 'k :: linorder"
  assumes s: "sorted (map key rows)" and st: "start < length rows"
    and cmp: "\<forall>i j. i < j \<and> j < length rows \<longrightarrow>
      (c (rows ! i) (rows ! j) \<longleftrightarrow> key (rows ! i) \<noteq> key (rows ! j))"
    and bound: "linearScan key rows start - start \<le> 2 ^ 30"
  shows "findNextPartitionStartRow c rows (int start) = Inr (int (linearScan key rows start))"
proof -
  let ?e = "linearScan key rows start"
  from linearScan_bounds [OF st, of key] have b: "start < ?e" "?e \<le> length rows" by simp_all
  from bound b have "int ?e - int start \<le> 2 ^ 30" by simp
  from search_correct [OF compareFinds_linearScan [OF s st cmp] _ _ _ _ refl this,
      of "int start" "int (length rows)"] b
  show ?thesis by (simp add: findNextPartitionStartRow_def Let_def)
qed

lemma linearScan_least:
  fixes key :: "'r \<Rightarrow> 'k :: linorder"
  assumes "start < length rows"
  shows "linearScan key rows start =
           (if \<exists>i. start < i \<and> i < length rows \<and> key (rows ! i) \<noteq> key (rows ! start)
            then (LEAST i. start < i \<and> i < length rows \<and> key (rows ! i) \<noteq> key (rows ! start))
            else length rows)"
proof -
  let ?e = "linearScan key rows start"
  let ?Q = "\<lambda>i. start < i \<and> i < length rows \<and> key (rows ! i) \<noteq> key (rows ! start)"
  from linearScan_bounds [OF assms, of key] have b: "start < ?e" "?e \<le> length rows" by simp_all
  show ?thesis
  proof (cases "\<exists>i. ?Q i")
    case True
    then obtain i where i: "?Q i" ..
    have lt: "?e < length rows"
    proof (rule ccontr)
      assume "\<not> ?e < length rows"
      with b i have "start \<le> i" "i < ?e" by simp_all
      from linearScan_same [OF this] i show False by simp
    qed
    have "(LEAST i. ?Q i) = ?e"
    proof (rule Least_equality)
      from b lt linearScan_differs [OF lt] show "?Q ?e" by simp
    next
      fix y assume y: "?Q y"
      show "?e \<le> y"
      proof (rule ccontr)
        assume "\<not> ?e \<le> y"
        with y have "start \<le> y" "y < ?e" by simp_all
        from linearScan_same [OF this] y show False by simp
      qed
    qed
    moreover from True
    have "(if \<exists>i. ?Q i then (LEAST i. ?Q i) else length rows) = (LEAST i. ?Q i)"
      by (rule if_P)
    ultimately show ?thesis by (simp only:)
  next
    case False
    have "?e = length rows"
    proof (rule ccontr)
      assume "?e \<noteq> length rows"
      with b have lt: "?e < length rows" by simp
      from b lt linearScan_differs [OF lt] have "?Q ?e" by simp
      with False show False by blast
    qed
    moreover from False
    have "(if \<exists>i. ?Q i then (LEAST i. ?Q i) else length rows) = length rows"
      by (rule if_not_P)
    ultimately show ?thesis by (rule trans [OF _ sym])
  qed
qed

lemma findNextPartitionStartRow_linearScan_example:
  "findNextPartitionStartRow (\<lambda>a b. fst a < fst b)
     [(1, 10), (1, 11), (2, 12), (2, 13), (2, 14), (3 :: nat, 15 :: nat)] 2 = Inr 5 \<and>
   linearScan fst [(1, 10), (1, 11), (2, 12), (2, 13), (2, 14), (3 :: nat, 15 :: nat)] 2 = 5"
  by code_simp

lemma probe_overflow:
  assumes same: "\<forall>j < length rows. \<not> c (rows ! nat l) (rows ! j)"
    and big: "2 ^ 30 < lp - l" and lp: "lp \<le> int (length rows)" and l: "0 \<le> l"
  shows "m \<le> 30 \<Longrightarrow> probe c rows l lp (2 ^ (30 - m)) = Inl SignedOverflow"
proof (induction m)
  case 0
  note u = probe_unfold [of c rows l lp "2 ^ 30"]
  from big lp l have "nat (l + 2 ^ 30) < length rows" by simp
  with same have "\<not> c (rows ! nat l) (rows ! nat (l + 2 ^ 30))" by blast
  with big have "probe c rows l lp (2 ^ 30) = Inl SignedOverflow"
    unfolding u by (simp add: INT_MAX_def)
  then show ?case by simp
next
  case (Suc m)
  let ?d = "2 ^ (30 - Suc m) :: int"
  note u = probe_unfold [of c rows l lp ?d]
  from Suc.prems have d2: "?d * 2 = 2 ^ (30 - m)"
    by (metis One_nat_def Suc_diff_le Suc_le_mono diff_Suc_Suc mult.commute power_Suc)
  have "(2::int) ^ (30 - m) \<le> 2 ^ 30" by (rule power_increasing) simp_all
  with d2 have le: "?d * 2 \<le> 2 ^ 30" by simp
  with big have lt: "?d < lp - l" by simp
  have "0 < ?d" by simp
  with lt lp l have "nat (l + ?d) < length rows" by linarith
  with same have nc: "\<not> c (rows ! nat l) (rows ! nat (l + ?d))" by blast
  from le have no: "\<not> INT_MAX < ?d * 2" by (simp add: INT_MAX_def)
  from Suc.prems Suc.IH have "probe c rows l lp (?d * 2) = Inl SignedOverflow"
    unfolding d2 by simp
  with lt nc no show ?case unfolding u by simp
qed

lemma findNextPartitionStartRow_overflow_general:
  assumes same: "\<forall>j < length rows. \<not> c (rows ! 0) (rows ! j)"
    and big: "2 ^ 30 < int (length rows)"
  shows "findNextPartitionStartRow c rows 0 = Inl SignedOverflow"
proof -
  from same have s: "\<forall>j < length rows. \<not> c (rows ! nat 0) (rows ! j)" by simp
  from big have b: "2 ^ 30 < int (length rows) - 0" by simp
  from probe_overflow [where l = 0 and lp = "int (length rows)" and m = 30 and rows = rows
      and c = c, OF s b] have "probe c rows 0 (int (length rows)) 1 = Inl SignedOverflow"
    by simp
  moreover from big have "(1::int) < int (length rows)" by simp
  ultimately show ?thesis
    by (simp add: findNextPartitionStartRow_def Let_def search_step)
qed

text \<open>
  Claim C1. The claim holds for partitions of at most \<open>2 ^ 30\<close> rows (lemma
  \<open>findNextPartitionStartRow_linearScan\<close>). On \<open>2 ^ 30 + 1\<close> rows of one partition the probe
  at distance \<open>2 ^ 30\<close> finds an equal key and the \<^verbatim>\<open>int\<close> variable \<^verbatim>\<open>distance\<close> is doubled
  beyond \<^verbatim>\<open>INT_MAX\<close>: the function does not return the row count.
\<close>

theorem findNextPartitionStartRow_overflow:
  "findNextPartitionStartRow (\<lambda>a b. a < b) (replicate (2 ^ 30 + 1) (0 :: nat)) 0 = Inl SignedOverflow"
  by (rule findNextPartitionStartRow_overflow_general) simp_all

subsection \<open>No input\<close>

lemma addInput_empty: "data s = [] \<Longrightarrow> addInput env [] s = Inr s"
  by (simp add: addInput_def ensureInputFits_def split: option.splits)

lemma addInputs_empty:
  "concat inputs = [] \<Longrightarrow> data s = [] \<Longrightarrow> addInputs env inputs s = Inr s"
  by (induction inputs) (simp_all add: addInput_empty)

text \<open>
  Claim C8. If no row was ever added (no batch, or empty batches only), the build is still in
  its initial state; \<^verbatim>\<open>noMoreInput\<close> returns at once and leaves it so (nothing is sorted, the
  spill is not finalized, no check fails), and the first \<^verbatim>\<open>hasNextPartition\<close> answers false.
\<close>

theorem zero_rows_no_partition:
  fixes env :: "('r, 'v, 'p) collab" and p :: 'p
  assumes "concat inputs = []"
  shows "addInputs env inputs (newBuild p) = Inr (newBuild p) \<and>
         noMoreInput env (newBuild p) = Inr (newBuild p) \<and>
         hasNextPartition env (newBuild p) = (False, newBuild p)"
proof -
  have "data (newBuild p :: ('r, 'p) build) = []" by (simp add: newBuild_def)
  with assms have "addInputs env inputs (newBuild p) = Inr (newBuild p)"
    by (rule addInputs_empty)
  moreover have "noMoreInput env (newBuild p) = Inr (newBuild p)"
    by (simp add: newBuild_def noMoreInput_def)
  moreover have "hasNextPartition env (newBuild p) = (False, newBuild p)"
    by (simp add: newBuild_def hasNextPartition_def)
  ultimately show ?thesis by simp
qed

theorem zero_rows_no_partition_witness:
  "concat [[], []] = ([] :: (nat \<times> nat) list) \<and>
   addInputs (exampleCollab (Some exampleConfig) True) [[], []] (newBuild 0) = Inr (newBuild 0) \<and>
   noMoreInput (exampleCollab (Some exampleConfig) True) (newBuild 0) = Inr (newBuild 0) \<and>
   hasNextPartition (exampleCollab (Some exampleConfig) True) (newBuild 0) = (False, newBuild 0)"
  using zero_rows_no_partition [of "[[], []]" "exampleCollab (Some exampleConfig) True" 0]
  by simp

subsection \<open>nextPartition in merge mode\<close>

text \<open>
  Claim C10. In merge mode (\<^verbatim>\<open>merge_\<close> is set) a \<^verbatim>\<open>nextPartition\<close> that returns leaves the
  whole state of the build as it was: the reader is not advanced, the row container and the
  buffered rows are not changed. Its view is the buffer, and a second call right after it
  returns the same view.
\<close>

theorem nextPartition_merge_frame:
  assumes "merge s \<noteq> None" and "nextPartition s = Inr (v, s')"
  shows "s' = s \<and> v = sortedRows s \<and> nextPartition s' = Inr (v, s')"
  using assms by (auto simp: nextPartition_def split: if_splits)

theorem nextPartition_merge_frame_witness:
  "merge exampleMergeState \<noteq> None \<and>
   nextPartition exampleMergeState = Inr ([(1, 10), (1, 11)], exampleMergeState) \<and>
   exampleMergeState = exampleMergeState \<and> [(1, 10), (1, 11)] = sortedRows exampleMergeState \<and>
   nextPartition exampleMergeState = Inr ([(1, 10), (1, 11)], exampleMergeState)"
proof -
  have m: "merge exampleMergeState \<noteq> None" by (simp add: exampleMergeState_def)
  have n: "nextPartition exampleMergeState = Inr ([(1, 10), (1, 11)], exampleMergeState)"
    by (simp add: nextPartition_def exampleMergeState_def)
  from nextPartition_merge_frame [OF m n] m n show ?thesis by simp
qed

subsection \<open>A failed reservation in ensureInputFits\<close>

text \<open>
  Claim C7. When spilling is enabled, the container holds rows, the test hook does not fire,
  the batch does not fit the reservation and \<^verbatim>\<open>maybeReserve\<close> refuses the growth, then
  \<^verbatim>\<open>ensureInputFits\<close> returns normally: it has logged one warning, and but for the hook's
  call count and the pool the state is as before, so the row container, the row count and the
  spiller are untouched (no spill). \<^verbatim>\<open>addInput\<close> then stores the batch.
\<close>

theorem ensureInputFits_reserve_failure:
  assumes "spillConfig env = Some cfg" and "data s \<noteq> []" and "\<not> triggerSpill env (hookCalls s)"
    and "\<not> inputFitsReservation env cfg input (data s) (pool s)"
    and "maybeReserve env (targetIncrementBytes env cfg input (data s) (pool s)) (pool s) = (False, p')"
  shows "ensureInputFits env input s =
           Inr (s\<lparr>hookCalls := hookCalls s + 1, pool := p', warnings := warnings s + 1\<rparr>) \<and>
         addInput env input s =
           Inr (s\<lparr>hookCalls := hookCalls s + 1, pool := p', warnings := warnings s + 1,
                  data := data s @ input, numRows := numRows s + int (length input)\<rparr>)"
  using assms by (simp add: addInput_def ensureInputFits_def testingTriggerSpill_def)

theorem ensureInputFits_reserve_failure_witness:
  "spillConfig (exampleCollab (Some exampleConfig) False) = Some exampleConfig \<and>
   data exampleFullState \<noteq> [] \<and>
   \<not> triggerSpill (exampleCollab (Some exampleConfig) False) (hookCalls exampleFullState) \<and>
   \<not> inputFitsReservation (exampleCollab (Some exampleConfig) False) exampleConfig [(2, 12)]
       (data exampleFullState) (pool exampleFullState) \<and>
   maybeReserve (exampleCollab (Some exampleConfig) False)
     (targetIncrementBytes (exampleCollab (Some exampleConfig) False) exampleConfig [(2, 12)]
        (data exampleFullState) (pool exampleFullState)) (pool exampleFullState) = (False, 0) \<and>
   ensureInputFits (exampleCollab (Some exampleConfig) False) [(2, 12)] exampleFullState =
     Inr (exampleFullState\<lparr>hookCalls := 1, warnings := 1\<rparr>) \<and>
   addInput (exampleCollab (Some exampleConfig) False) [(2, 12)] exampleFullState =
     Inr (exampleFullState\<lparr>hookCalls := 1, warnings := 1, data := [(1, 10), (2, 12)], numRows := 2\<rparr>)"
proof -
  let ?env = "exampleCollab (Some exampleConfig) False"
  have a: "spillConfig ?env = Some exampleConfig" by (simp add: exampleCollab_def)
  have b: "data exampleFullState \<noteq> []" by (simp add: exampleFullState_def)
  have c: "\<not> triggerSpill ?env (hookCalls exampleFullState)" by (simp add: exampleCollab_def)
  have d: "\<not> inputFitsReservation ?env exampleConfig [(2, 12)]
       (data exampleFullState) (pool exampleFullState)"
    by (simp add: inputFitsReservation_def exampleCollab_def)
  have e: "maybeReserve ?env
     (targetIncrementBytes ?env exampleConfig [(2, 12)]
        (data exampleFullState) (pool exampleFullState)) (pool exampleFullState) = (False, 0)"
    by (simp add: targetIncrementBytes_def exampleCollab_def exampleFullState_def newBuild_def
        tdiv_def exampleConfig_def)
  from ensureInputFits_reserve_failure [OF a b c d e] a b c d e show ?thesis
    by (simp add: exampleFullState_def newBuild_def)
qed

subsection \<open>hasNextPartition in merge mode\<close>

lemma loadRows_spec:
  "loadRows env stream buf = (buf', rest) \<Longrightarrow>
   successively (\<lambda>a b. \<not> partitionKeysDiffer env a b) buf \<Longrightarrow>
   (\<exists>taken. buf' = buf @ taken \<and> stream = taken @ rest \<and> (stream \<noteq> [] \<and> buf = [] \<longrightarrow> taken \<noteq> [])) \<and>
   successively (\<lambda>a b. \<not> partitionKeysDiffer env a b) buf' \<and>
   (rest \<noteq> [] \<longrightarrow> buf' \<noteq> [] \<and> partitionKeysDiffer env (last buf') (hd rest))"
proof (induction stream arbitrary: buf)
  case Nil
  then show ?case by simp
next
  case (Cons r stream)
  show ?case
  proof (cases "buf \<noteq> [] \<and> partitionKeysDiffer env (last buf) r")
    case True
    with Cons.prems have "buf' = buf" and "rest = r # stream" by simp_all
    with True Cons.prems(2) show ?thesis by simp
  next
    case False
    with Cons.prems have l: "loadRows env stream (buf @ [r]) = (buf', rest)" by simp
    from False Cons.prems(2)
    have "successively (\<lambda>a b. \<not> partitionKeysDiffer env a b) (buf @ [r])"
      by (auto simp: successively_append_iff)
    from Cons.IH [OF l this] obtain taken where
      t: "buf' = (buf @ [r]) @ taken" "stream = taken @ rest"
      and s: "successively (\<lambda>a b. \<not> partitionKeysDiffer env a b) buf'"
      and d: "rest \<noteq> [] \<longrightarrow> buf' \<noteq> [] \<and> partitionKeysDiffer env (last buf') (hd rest)"
      by (elim conjE exE)
    from t have "buf' = buf @ (r # taken) \<and> r # stream = (r # taken) @ rest \<and>
      (r # stream \<noteq> [] \<and> buf = [] \<longrightarrow> r # taken \<noteq> [])" by simp
    then have "\<exists>taken. buf' = buf @ taken \<and> r # stream = taken @ rest \<and>
      (r # stream \<noteq> [] \<and> buf = [] \<longrightarrow> taken \<noteq> [])" by (rule exI)
    with s d show ?thesis by (intro conjI)
  qed
qed

lemma partitionKeysDiffer_iff:
  "partitionKeysDiffer env a b \<longleftrightarrow> (\<exists>i < numPartitionKeys env. col env a i \<noteq> col env b i)"
  by (auto simp: partitionKeysDiffer_def list_ex_iff)

text \<open>
  Claim C5. In merge mode \<^verbatim>\<open>hasNextPartition\<close> replaces the buffer (and the row container) by
  a prefix \<open>buf\<close> of the rows of the reader and leaves the other rows \<open>rest\<close> in the reader. No
  two neighbours in \<open>buf\<close> differ in a partition key column (compared by equality of the column
  values, nulls included); when rows are left, the first of them differs from the last row of
  \<open>buf\<close> in some partition key column; \<open>buf\<close> is empty only when the reader was. The answer is
  whether \<open>buf\<close> is not empty.
\<close>

theorem hasNextPartition_merge:
  fixes env :: "('r, 'v, 'p) collab"
  assumes "merge s = Some stream"
  shows "\<exists>buf rest.
           hasNextPartition env s =
             (buf \<noteq> [], s\<lparr>sortedRows := buf, data := buf, merge := Some rest\<rparr>) \<and>
           stream = buf @ rest \<and>
           (stream \<noteq> [] \<longrightarrow> buf \<noteq> []) \<and>
           (\<forall>j. Suc j < length buf \<longrightarrow>
              (\<forall>i < numPartitionKeys env. col env (buf ! j) i = col env (buf ! Suc j) i)) \<and>
           (rest \<noteq> [] \<longrightarrow>
              (\<exists>i < numPartitionKeys env. col env (last buf) i \<noteq> col env (hd rest) i))"
proof -
  obtain buf rest where l: "loadRows env stream [] = (buf, rest)"
    by (cases "loadRows env stream []")
  have "successively (\<lambda>a b. \<not> partitionKeysDiffer env a b) []" by simp
  note spec = loadRows_spec [OF l this]
  from spec obtain taken where t: "buf = [] @ taken" "stream = taken @ rest"
    and t2: "stream \<noteq> [] \<and> ([] :: 'r list) = [] \<longrightarrow> taken \<noteq> []"
    by (elim conjE exE)
  from t have 1: "stream = buf @ rest" by simp
  from t t2 have 2: "stream \<noteq> [] \<longrightarrow> buf \<noteq> []" by simp
  from spec have 3: "successively (\<lambda>a b. \<not> partitionKeysDiffer env a b) buf"
    by (elim conjE)
  from spec have 4: "rest \<noteq> [] \<longrightarrow> partitionKeysDiffer env (last buf) (hd rest)"
    by (elim conjE) simp
  from l assms have 0: "hasNextPartition env s =
      (buf \<noteq> [], s\<lparr>sortedRows := buf, data := buf, merge := Some rest\<rparr>)"
    by (simp add: hasNextPartition_def loadNextPartitionFromSpill_def)
  from 3 have 5: "\<forall>j. Suc j < length buf \<longrightarrow>
      (\<forall>i < numPartitionKeys env. col env (buf ! j) i = col env (buf ! Suc j) i)"
    by (simp add: successively_conv_nth partitionKeysDiffer_iff)
  from 4 have 6: "rest \<noteq> [] \<longrightarrow>
      (\<exists>i < numPartitionKeys env. col env (last buf) i \<noteq> col env (hd rest) i)"
    by (simp add: partitionKeysDiffer_iff)
  show ?thesis
    by (rule exI [of _ buf], rule exI [of _ rest]) (rule conjI 0 1 2 5 6)+
qed




theorem hasNextPartition_merge_witness:
  "merge exampleReaderState = Some [(1, 10), (1, 11), (2, 12), (2, 13)] \<and>
   hasNextPartition (exampleCollab (Some exampleConfig) True) exampleReaderState =
     (True, exampleReaderState\<lparr>sortedRows := [(1, 10), (1, 11)], data := [(1, 10), (1, 11)],
        merge := Some [(2, 12), (2, 13)]\<rparr>) \<and>
   (\<exists>buf rest.
      hasNextPartition (exampleCollab (Some exampleConfig) True) exampleReaderState =
        (buf \<noteq> [], exampleReaderState\<lparr>sortedRows := buf, data := buf, merge := Some rest\<rparr>) \<and>
      [(1, 10), (1, 11), (2, 12), (2, 13)] = buf @ rest \<and>
      ([(1, 10), (1, 11), (2, 12), (2, 13 :: nat)] \<noteq> ([] :: (nat \<times> nat) list) \<longrightarrow> buf \<noteq> []) \<and>
      (\<forall>j. Suc j < length buf \<longrightarrow>
         (\<forall>i < numPartitionKeys (exampleCollab (Some exampleConfig) True).
            col (exampleCollab (Some exampleConfig) True) (buf ! j) i =
            col (exampleCollab (Some exampleConfig) True) (buf ! Suc j) i)) \<and>
      (rest \<noteq> [] \<longrightarrow>
         (\<exists>i < numPartitionKeys (exampleCollab (Some exampleConfig) True).
            col (exampleCollab (Some exampleConfig) True) (last buf) i \<noteq>
            col (exampleCollab (Some exampleConfig) True) (hd rest) i)))"
proof -
  let ?env = "exampleCollab (Some exampleConfig) True"
  have m: "merge exampleReaderState = Some [(1, 10), (1, 11), (2, 12), (2, 13)]"
    by (simp add: exampleReaderState_def)
  have h: "hasNextPartition ?env exampleReaderState =
     (True, exampleReaderState\<lparr>sortedRows := [(1, 10), (1, 11)], data := [(1, 10), (1, 11)],
        merge := Some [(2, 12), (2, 13)]\<rparr>)"
    by (simp add: hasNextPartition_def loadNextPartitionFromSpill_def exampleReaderState_def
        partitionKeysDiffer_def exampleCollab_def)
  show ?thesis
    by (rule conjI [OF m conjI [OF h hasNextPartition_merge [OF m, of ?env]]])
qed

subsection \<open>The check of computePartitionStartRows\<close>

lemma spill_Inr: "\<exists>s1. spill env s = Inr s1 \<and> spiller s1 \<noteq> None \<and> merge s1 = merge s \<and> numRows s1 = numRows s"
  by (cases "spiller s") (simp_all add: spill_def setupSpiller_def)

lemma ensureInputFits_cases:
  "\<exists>s1. ensureInputFits env input s = Inr s1 \<and> merge s1 = merge s \<and> numRows s1 = numRows s \<and>
     (spiller s1 \<noteq> None \<or> (spiller s1 = spiller s \<and> data s1 = data s))"
proof (cases "spillConfig env")
  case None
  then show ?thesis by (simp add: ensureInputFits_def)
next
  case (Some cfg)
  show ?thesis
  proof (cases "length (data s) = 0")
    case True
    with Some show ?thesis by (simp add: ensureInputFits_def)
  next
    case False
    show ?thesis
    proof (cases "triggerSpill env (hookCalls s)")
      case True
      from spill_Inr [of env "s\<lparr>hookCalls := hookCalls s + 1\<rparr>"] Some False True show ?thesis
        by (auto simp: ensureInputFits_def testingTriggerSpill_def)
    next
      case nohook: False
      with Some False show ?thesis
        by (simp add: ensureInputFits_def testingTriggerSpill_def split: prod.splits bool.splits)
    qed
  qed
qed


lemma addInput_rowsInStore:
  assumes "rowsInStore s"
  shows "\<exists>s1. addInput env input s = Inr s1 \<and> rowsInStore s1"
proof -
  from ensureInputFits_cases [of env input s] obtain s1 where
    e: "ensureInputFits env input s = Inr s1" and m: "merge s1 = merge s"
    and n: "numRows s1 = numRows s"
    and c: "spiller s1 \<noteq> None \<or> (spiller s1 = spiller s \<and> data s1 = data s)"
    by (elim exE conjE)
  from e have "addInput env input s =
      Inr (s1\<lparr>data := data s1 @ input, numRows := numRows s1 + int (length input)\<rparr>)"
    by (simp add: addInput_def)
  moreover from assms m n c
  have "rowsInStore (s1\<lparr>data := data s1 @ input, numRows := numRows s1 + int (length input)\<rparr>)"
    by (auto simp: rowsInStore_def)
  ultimately show ?thesis by simp
qed

lemma probe_error: "probe c rows l lp d = Inl e \<Longrightarrow> e = SignedOverflow"
proof (induction c rows l lp d rule: probe.induct)
  case (1 c rows l lp d)
  note u = probe_unfold [of c rows l lp d]
  from "1.prems" have g: "0 < d \<and> d < lp - l"
    unfolding u by (simp split: if_splits)
  with "1.prems" have nc: "\<not> c (rows ! nat l) (rows ! nat (l + d))"
    unfolding u by (simp split: if_splits)
  show ?case
  proof (cases "INT_MAX < d * 2")
    case True
    with g nc "1.prems" show ?thesis unfolding u by simp
  next
    case False
    with g nc "1.prems" have "probe c rows l lp (d * 2) = Inl e"
      unfolding u by simp
    from "1.IH" [OF g refl nc False this] show ?thesis .
  qed
qed

lemma search_error: "search c rows l r lp = Inl e \<Longrightarrow> e = SignedOverflow"
proof (induction c rows l r lp rule: search.induct)
  case (1 c rows l r lp)
  show ?case
  proof (cases "r < lp")
    case False
    from search_stop [OF False, of c rows l] "1.prems" show ?thesis by simp
  next
    case True
    note step = search_step [OF True, of c rows l]
    show ?thesis
    proof (cases "probe c rows l lp 1")
      case (Inl e')
      with "1.prems" have "e' = e" unfolding step by simp
      with Inl probe_error show ?thesis by blast
    next
      case (Inr res)
      obtain d lp' where res: "res = (d, lp')" by (cases res)
      with Inr "1.prems" have "search c rows (l + d div 2) (l + d div 2 + 1) lp' = Inl e"
        unfolding step by simp
      from "1.IH" [OF True _ refl refl this] Inr res show ?thesis by simp
    qed
  qed
qed

lemma startRowsLoop_error: "startRowsLoop c rows start starts = Inl e \<Longrightarrow> e = SignedOverflow"
proof (induction c rows start starts rule: startRowsLoop.induct)
  case (1 c rows start starts)
  from "1.prems" have g: "start < int (length rows)"
    by (subst (asm) startRowsLoop.simps) (simp split: if_splits)
  show ?case
  proof (cases "findNextPartitionStartRow c rows start")
    case (Inl e')
    with g "1.prems" have "e' = e" by (subst (asm) startRowsLoop.simps) simp
    with Inl search_error show ?thesis
      by (auto simp: findNextPartitionStartRow_def Let_def)
  next
    case (Inr x)
    with g "1.prems" have "startRowsLoop c rows x (starts @ [x]) = Inl e"
      by (subst (asm) startRowsLoop.simps) simp
    from "1.IH" [OF g Inr this] show ?thesis .
  qed
qed


lemma ensureSortFits_cases:
  "\<exists>s1. ensureSortFits env s = Inr s1 \<and> merge s1 = merge s \<and> numRows s1 = numRows s \<and>
     currentPartition s1 = currentPartition s \<and> partitionStartRows s1 = partitionStartRows s \<and>
     (spiller s1 \<noteq> None \<or> (spiller s1 = spiller s \<and> data s1 = data s))"
proof (cases "spillConfig env")
  case None
  then show ?thesis by (simp add: ensureSortFits_def)
next
  case (Some cfg)
  show ?thesis
  proof (cases "triggerSpill env (hookCalls s)")
    case True
    have "\<exists>s1. spill env (s\<lparr>hookCalls := hookCalls s + 1\<rparr>) = Inr s1 \<and> spiller s1 \<noteq> None \<and>
        merge s1 = merge s \<and> numRows s1 = numRows s \<and>
        currentPartition s1 = currentPartition s \<and> partitionStartRows s1 = partitionStartRows s"
      by (cases "spiller s") (simp_all add: spill_def setupSpiller_def)
    with Some True show ?thesis
      by (auto simp: ensureSortFits_def testingTriggerSpill_def)
  next
    case False
    with Some show ?thesis
      by (simp add: ensureSortFits_def testingTriggerSpill_def split: prod.splits bool.splits)
  qed
qed

lemma sortPartitions_check:
  assumes "0 < length (prefixSort env (take (nat (numRows s)) (data s)))"
  shows "sortPartitions env s \<noteq> Inl emptyCheck"
proof
  assume a: "sortPartitions env s = Inl emptyCheck"
  let ?rows = "prefixSort env (take (nat (numRows s)) (data s))"
  from a assms have "startRowsLoop (partitionCompare env) ?rows 0 (partitionStartRows s @ [0]) =
      Inl emptyCheck"
    by (simp add: sortPartitions_def computePartitionStartRows_def Let_def split: sum.splits)
  from startRowsLoop_error [OF this] show False by (simp add: emptyCheck_def)
qed

lemma sortPartitions_frame:
  "sortPartitions env s = Inr s1 \<Longrightarrow>
   data s1 = data s \<and> numRows s1 = numRows s \<and> spiller s1 = spiller s \<and> merge s1 = merge s \<and>
   currentPartition s1 = currentPartition s"
  by (auto simp: sortPartitions_def computePartitionStartRows_def Let_def
      split: sum.splits if_splits)

lemma noMoreInput_rowsInStore:
  assumes inv: "rowsInStore s" and len: "\<forall>rows. length (prefixSort env rows) = length rows"
  shows "noMoreInput env s \<noteq> Inl emptyCheck \<and>
         (\<forall>s1. noMoreInput env s = Inr s1 \<longrightarrow> rowsInStore s1)"
proof (cases "numRows s = 0")
  case True
  with inv show ?thesis by (simp add: noMoreInput_def)
next
  case False
  from ensureSortFits_cases [of env s] obtain s1 where
    e: "ensureSortFits env s = Inr s1" and m: "merge s1 = merge s"
    and n: "numRows s1 = numRows s"
    and c: "spiller s1 \<noteq> None \<or> (spiller s1 = spiller s \<and> data s1 = data s)"
    by (elim exE conjE)
  show ?thesis
  proof (cases "spiller s1")
    case (Some runs)
    from spill_Inr [of env s1] obtain s2 where s2: "spill env s1 = Inr s2"
      and sp: "spiller s2 \<noteq> None" by (elim exE conjE)
    with False e Some show ?thesis
      by (auto simp: noMoreInput_def rowsInStore_def emptyCheck_def)
  next
    case None
    with c inv have d: "int (length (data s1)) = numRows s1" and sp: "spiller s = None"
      using n by (auto simp: rowsInStore_def)
    from d False n have "data s1 \<noteq> []" by auto
    with d len have pos: "0 < length (prefixSort env (take (nat (numRows s1)) (data s1)))"
      by simp
    have 1: "noMoreInput env s =
        (case sortPartitions env s1 of Inl e \<Rightarrow> Inl e
         | Inr s3 \<Rightarrow> Inr (s3\<lparr>pool := release env (pool s3)\<rparr>))"
      using False e None by (simp add: noMoreInput_def)
    show ?thesis
    proof (cases "sortPartitions env s1")
      case (Inl e')
      with sortPartitions_check [OF pos] 1 show ?thesis by simp
    next
      case (Inr s3)
      from sortPartitions_frame [OF Inr] d None inv m sp
      have "rowsInStore (s3\<lparr>pool := release env (pool s3)\<rparr>)"
        by (simp add: rowsInStore_def)
      with Inr 1 show ?thesis by simp
    qed
  qed
qed

lemma doCall_rowsInStore:
  assumes inv: "rowsInStore s" and len: "\<forall>rows. length (prefixSort env rows) = length rows"
  shows "doCall env c s \<noteq> Inl emptyCheck \<and> (\<forall>s1. doCall env c s = Inr s1 \<longrightarrow> rowsInStore s1)"
proof (cases c)
  case (AddInput input)
  with addInput_rowsInStore [OF inv, of env input] show ?thesis by auto
next
  case NoMoreInput
  with noMoreInput_rowsInStore [OF inv len] show ?thesis by simp
next
  case HasNextPartition
  with inv show ?thesis
    by (auto simp: hasNextPartition_def loadNextPartitionFromSpill_def rowsInStore_def Let_def
        split: prod.splits)
next
  case NextPartition
  with inv show ?thesis
    by (auto simp: nextPartition_def rowsInStore_def Let_def emptyCheck_def
        split: if_splits sum.splits)
qed

lemma runCalls_rowsInStore:
  assumes len: "\<forall>rows. length (prefixSort env rows) = length rows"
  shows "rowsInStore s \<Longrightarrow> runCalls env calls s \<noteq> Inl emptyCheck"
proof (induction calls arbitrary: s)
  case Nil
  then show ?case by simp
next
  case (Cons c calls)
  from doCall_rowsInStore [OF Cons.prems len, of c] Cons.IH show ?case
    by (cases "doCall env c s") auto
qed

text \<open>
  Claim C9. Whatever sequence of \<^verbatim>\<open>addInput\<close>, \<^verbatim>\<open>noMoreInput\<close>, \<^verbatim>\<open>hasNextPartition\<close> and
  \<^verbatim>\<open>nextPartition\<close> is called on a new build, the check \<^verbatim>\<open>VELOX_CHECK_GT(sortedRows_.size(), 0)\<close>
  of \<^verbatim>\<open>computePartitionStartRows\<close> does not fail, provided the prefix sort returns as many
  rows as it is given: \<^verbatim>\<open>sortPartitions\<close> runs only when \<^verbatim>\<open>numRows_\<close> is not zero and nothing was
  spilled, and then \<^verbatim>\<open>sortedRows_\<close> receives the \<^verbatim>\<open>numRows_\<close> rows of the container.
\<close>

theorem empty_check_never_fires:
  fixes env :: "('r, 'v, 'p) collab" and p :: 'p
  assumes "\<forall>rows. length (prefixSort env rows) = length rows"
  shows "runCalls env calls (newBuild p) \<noteq> Inl (CheckFailed ''sortedRows_.size() > 0'')"
proof -
  have "rowsInStore (newBuild p :: ('r, 'p) build)" by (simp add: rowsInStore_def newBuild_def)
  from runCalls_rowsInStore [OF assms this] show ?thesis by (simp add: emptyCheck_def)
qed

theorem empty_check_never_fires_witness:
  "(\<forall>rows. length (prefixSort (exampleCollab None False) rows) = length rows) \<and>
   runCalls (exampleCollab None False)
     [AddInput [(2, 12), (1, 10)], AddInput [(1, 11)], NoMoreInput, HasNextPartition, NextPartition]
     (newBuild 0) \<noteq> Inl (CheckFailed ''sortedRows_.size() > 0'') \<and>
   runCalls (exampleCollab None False)
     [AddInput [(2, 12), (1, 10)], AddInput [(1, 11)], NoMoreInput, HasNextPartition, NextPartition]
     (newBuild 0) =
   Inr \<lparr>numRows = 3, data = [(2, 12), (1, 10), (1, 11)],
     sortedRows = [(1, 10), (1, 11), (2, 12)], partitionStartRows = [0, 2, 3],
     currentPartition = 0, spiller = None, merge = None, pool = 0, hookCalls = 0, warnings = 0\<rparr>"
proof -
  have l: "\<forall>rows. length (prefixSort (exampleCollab None False) rows) = length rows"
    by (simp add: exampleCollab_def)
  have r: "runCalls (exampleCollab None False)
     [AddInput [(2, 12), (1, 10)], AddInput [(1, 11)], NoMoreInput, HasNextPartition, NextPartition]
     (newBuild 0) =
   Inr \<lparr>numRows = 3, data = [(2, 12), (1, 10), (1, 11)],
     sortedRows = [(1, 10), (1, 11), (2, 12)], partitionStartRows = [0, 2, 3],
     currentPartition = 0, spiller = None, merge = None, pool = 0, hookCalls = 0, warnings = 0\<rparr>"
    by code_simp
  from empty_check_never_fires [OF l, of _ 0] l r show ?thesis by (intro conjI)
qed

subsection \<open>nextPartition without a partition\<close>

lemma spill_frame:
  "spill env s = Inr s1 \<Longrightarrow>
   partitionStartRows s1 = partitionStartRows s \<and> currentPartition s1 = currentPartition s \<and>
   merge s1 = merge s \<and> numRows s1 = numRows s \<and> sortedRows s1 = sortedRows s"
  by (cases "spiller s") (auto simp: spill_def setupSpiller_def)

lemma ensureInputFits_frame:
  assumes "ensureInputFits env input s = Inr s1"
  shows "partitionStartRows s1 = partitionStartRows s \<and> currentPartition s1 = currentPartition s \<and>
         merge s1 = merge s \<and> numRows s1 = numRows s \<and> sortedRows s1 = sortedRows s"
proof (cases "spillConfig env")
  case None
  with assms show ?thesis by (simp add: ensureInputFits_def)
next
  case (Some cfg)
  show ?thesis
  proof (cases "length (data s) = 0")
    case True
    with Some assms show ?thesis by (simp add: ensureInputFits_def)
  next
    case False
    show ?thesis
    proof (cases "triggerSpill env (hookCalls s)")
      case True
      with Some False assms have "spill env (s\<lparr>hookCalls := hookCalls s + 1\<rparr>) = Inr s1"
        by (simp add: ensureInputFits_def testingTriggerSpill_def)
      from spill_frame [OF this] show ?thesis by simp
    next
      case nohook: False
      with Some False assms show ?thesis
        by (auto simp: ensureInputFits_def testingTriggerSpill_def
            split: prod.splits bool.splits if_splits)
    qed
  qed
qed

lemma addInput_frame:
  assumes "addInput env input s = Inr s1"
  shows "partitionStartRows s1 = partitionStartRows s \<and> currentPartition s1 = currentPartition s \<and>
         merge s1 = merge s \<and> numRows s1 = numRows s + int (length input) \<and>
         sortedRows s1 = sortedRows s"
proof -
  from assms obtain s' where e: "ensureInputFits env input s = Inr s'"
    and s1: "s1 = s'\<lparr>data := data s' @ input, numRows := numRows s' + int (length input)\<rparr>"
    by (auto simp: addInput_def split: sum.splits)
  from ensureInputFits_frame [OF e] s1 show ?thesis by simp
qed

lemma addInputs_frame:
  "addInputs env inputs s = Inr s1 \<Longrightarrow>
   partitionStartRows s1 = partitionStartRows s \<and> currentPartition s1 = currentPartition s \<and>
   merge s1 = merge s \<and> numRows s1 = numRows s + int (length (concat inputs)) \<and>
   sortedRows s1 = sortedRows s"
proof (induction inputs arbitrary: s)
  case Nil
  then show ?case by simp
next
  case (Cons input inputs)
  from Cons.prems obtain s' where a: "addInput env input s = Inr s'"
    and r: "addInputs env inputs s' = Inr s1"
    by (auto split: sum.splits)
  from addInput_frame [OF a] Cons.IH [OF r] show ?case by simp
qed

lemma to_size_t_id: "0 \<le> x \<Longrightarrow> x < 2 ^ 64 \<Longrightarrow> to_size_t x = x"
  by (simp add: to_size_t_def)

lemma to_int_id: "- (2 ^ 31) \<le> x \<Longrightarrow> x < 2 ^ 31 \<Longrightarrow> to_int x = x"
  by (simp add: to_int_def)

lemma hasNextPartition_memoryOk:
  "hasNextPartition env s = (b, s1) \<Longrightarrow> memoryOk s \<Longrightarrow> memoryOk s1"
  by (auto simp: hasNextPartition_def loadNextPartitionFromSpill_def memoryOk_def Let_def
      split: if_splits prod.splits)

lemma nextPartition_memoryOk:
  assumes "nextPartition s = Inr (v, s1)" and "memoryOk s"
  shows "memoryOk s1"
proof (cases "merge s")
  case (Some stream)
  with assms show ?thesis by (auto simp: nextPartition_def memoryOk_def split: if_splits)
next
  case None
  from assms(1) None have ne: "partitionStartRows s \<noteq> []"
    and s1: "s1 = s\<lparr>currentPartition := currentPartition s + 1\<rparr>"
    and chk: "to_size_t (currentPartition s + 1) \<le> to_size_t (int (length (partitionStartRows s)) - 2)"
    by (auto simp: nextPartition_def Let_def split: if_splits)
  from assms(2) None ne have b: "2 \<le> length (partitionStartRows s)"
    "int (length (partitionStartRows s)) \<le> 2 ^ 31" "- 1 \<le> currentPartition s"
    "currentPartition s \<le> int (length (partitionStartRows s)) - 2"
    by (auto simp: memoryOk_def)
  from b have "to_size_t (currentPartition s + 1) = currentPartition s + 1"
    by (intro to_size_t_id) auto
  moreover from b have "to_size_t (int (length (partitionStartRows s)) - 2) =
      int (length (partitionStartRows s)) - 2"
    by (intro to_size_t_id) auto
  ultimately have "currentPartition s + 1 \<le> int (length (partitionStartRows s)) - 2"
    using chk by simp
  with b s1 None show ?thesis by (simp add: memoryOk_def)
qed

lemma exhausted_nextPartition_fails:
  assumes "hasNextPartition env s = (False, s1)" and "memoryOk s"
  shows "\<exists>msg. nextPartition s1 = Inl (CheckFailed msg)"
proof (cases "merge s")
  case (Some stream)
  with assms(1) show ?thesis
    by (auto simp: hasNextPartition_def loadNextPartitionFromSpill_def nextPartition_def Let_def
        split: prod.splits)
next
  case None
  with assms(1) have s1: "s1 = s"
    and no: "\<not> (length (partitionStartRows s) > 0 \<and>
      currentPartition s < to_int (to_size_t (int (length (partitionStartRows s)) - 2)))"
    by (auto simp: hasNextPartition_def)
  show ?thesis
  proof (cases "partitionStartRows s = []")
    case True
    with None s1 show ?thesis by (simp add: nextPartition_def)
  next
    case False
    with assms(2) None have b: "2 \<le> length (partitionStartRows s)"
      "int (length (partitionStartRows s)) \<le> 2 ^ 31" "- 1 \<le> currentPartition s"
      "currentPartition s \<le> int (length (partitionStartRows s)) - 2"
      by (auto simp: memoryOk_def)
    from b have t: "to_size_t (int (length (partitionStartRows s)) - 2) =
        int (length (partitionStartRows s)) - 2"
      by (intro to_size_t_id) auto
    from b have "to_int (int (length (partitionStartRows s)) - 2) =
        int (length (partitionStartRows s)) - 2"
      by (intro to_int_id) auto
    with no False t b have c: "currentPartition s = int (length (partitionStartRows s)) - 2"
      by auto
    from b have "to_size_t (currentPartition s + 1) = currentPartition s + 1"
      by (intro to_size_t_id) auto
    with c t have "\<not> to_size_t (currentPartition s + 1) \<le>
        to_size_t (int (length (partitionStartRows s)) - 2)"
      by simp
    with None False s1 show ?thesis by (simp add: nextPartition_def Let_def)
  qed
qed

lemma drain_exhausted:
  "drain env s = Inr (views, s2) \<Longrightarrow> memoryOk s \<Longrightarrow> \<exists>msg. nextPartition s2 = Inl (CheckFailed msg)"
proof (induction env s arbitrary: views rule: drain.induct)
  case (1 env s)
  obtain b s1 where h: "hasNextPartition env s = (b, s1)" by (cases "hasNextPartition env s")
  show ?case
  proof (cases b)
    case False
    with h "1.prems"(1) have "s2 = s1" by (subst (asm) drain.simps) simp
    with exhausted_nextPartition_fails [of env s s1] h False "1.prems"(2) show ?thesis by simp
  next
    case True
    with h "1.prems"(1) obtain v s' vs where n: "nextPartition s1 = Inr (v, s')"
      and d: "drain env s' = Inr (vs, s2)"
      by (subst (asm) drain.simps) (auto split: sum.splits)
    from hasNextPartition_memoryOk [OF h "1.prems"(2)] have "memoryOk s1" .
    from nextPartition_memoryOk [OF n this] have "memoryOk s'" .
    from "1.IH" [OF _ _ _ _ d this] h True n show ?thesis by simp
  qed
qed


lemma startRowsLoop_unfold:
  "startRowsLoop c rows start starts =
     (if start < int (length rows) then
        (case findNextPartitionStartRow c rows start of
           Inl e \<Rightarrow> Inl e
         | Inr next \<Rightarrow> startRowsLoop c rows next (starts @ [next]))
      else Inr starts)"
  by (rule startRowsLoop.simps)

lemma startRowsLoop_length:
  "startRowsLoop c rows start starts = Inr res \<Longrightarrow> 0 \<le> start \<Longrightarrow>
   length starts + (if start < int (length rows) then 1 else 0) \<le> length res \<and>
   int (length res) \<le> int (length starts) + max 0 (int (length rows) - start)"
proof (induction c rows start starts rule: startRowsLoop.induct)
  case (1 c rows start starts)
  note u = startRowsLoop_unfold [of c rows start starts]
  show ?case
  proof (cases "start < int (length rows)")
    case False
    with "1.prems" show ?thesis unfolding u by simp
  next
    case True
    with "1.prems"(1) obtain x where f: "findNextPartitionStartRow c rows start = Inr x"
      and r: "startRowsLoop c rows x (starts @ [x]) = Inr res"
      unfolding u by (auto split: sum.splits)
    from findNextPartitionStartRow_gt [OF f] "1.prems"(2) have x: "start < x" "0 \<le> x" by simp_all
    from "1.IH" [OF True f r x(2)] have
      "length (starts @ [x]) \<le> length res"
      "int (length res) \<le> int (length (starts @ [x])) + max 0 (int (length rows) - x)"
      by (simp_all split: if_splits)
    with x True show ?thesis by simp
  qed
qed

lemma noMoreInput_memoryOk:
  assumes n: "noMoreInput env s = Inr s1"
    and init: "partitionStartRows s = []" "currentPartition s = - 1" "merge s = None"
    and fits: "numRows s < 2 ^ 31"
    and len: "\<forall>rows. length (prefixSort env rows) = length rows"
  shows "memoryOk s1"
proof (cases "numRows s = 0")
  case True
  with n init show ?thesis by (simp add: noMoreInput_def memoryOk_def)
next
  case False
  from ensureSortFits_cases [of env s] obtain s' where
    e: "ensureSortFits env s = Inr s'" and m: "merge s' = merge s"
    and nr: "numRows s' = numRows s" and cp: "currentPartition s' = currentPartition s"
    and ps: "partitionStartRows s' = partitionStartRows s"
    by (elim exE conjE)
  show ?thesis
  proof (cases "spiller s'")
    case (Some runs)
    with False e n have "merge s1 \<noteq> None"
      by (auto simp: noMoreInput_def split: sum.splits if_splits)
    then show ?thesis by (auto simp: memoryOk_def)
  next
    case None
    let ?rows = "prefixSort env (take (nat (numRows s')) (data s'))"
    from False e None n obtain s3 where sp: "sortPartitions env s' = Inr s3"
      and s1: "s1 = s3\<lparr>pool := release env (pool s3)\<rparr>"
      by (auto simp: noMoreInput_def split: sum.splits)
    from sp ps init obtain starts where
      pos: "0 < length ?rows"
      and l: "startRowsLoop (partitionCompare env) ?rows 0 [0] = Inr starts"
      and s3: "partitionStartRows s3 = starts" "currentPartition s3 = currentPartition s'"
      by (auto simp: sortPartitions_def computePartitionStartRows_def Let_def
          split: sum.splits if_splits)
    from startRowsLoop_length [OF l] pos have
      "2 \<le> length starts" and "int (length starts) \<le> 1 + int (length ?rows)"
      by simp_all
    moreover from len nr fits have "int (length ?rows) < 2 ^ 31" by simp
    ultimately show ?thesis using s1 s3 cp init by (simp add: memoryOk_def)
  qed
qed

text \<open>
  Claim C6, as amended. When the prefix sort keeps the number of rows and the row count fits
  \<^verbatim>\<open>vector_size_t\<close>: before \<^verbatim>\<open>noMoreInput\<close>, whatever batches were added, \<^verbatim>\<open>nextPartition\<close>
  fails its check; and after \<^verbatim>\<open>noMoreInput\<close> and a drain that ended with \<^verbatim>\<open>hasNextPartition\<close>
  answering false, \<^verbatim>\<open>nextPartition\<close> fails a check, in memory mode and in merge mode alike.
\<close>

theorem nextPartition_unavailable_fails:
  fixes env :: "('r, 'v, 'p) collab" and p :: 'p
  assumes len: "\<forall>rows. length (prefixSort env rows) = length rows"
    and fits: "int (length (concat inputs)) < 2 ^ 31"
    and a: "addInputs env inputs (newBuild p) = Inr s0"
  shows "nextPartition s0 = Inl (CheckFailed ''No window partitions available'') \<and>
         (\<forall>s1 views s2. noMoreInput env s0 = Inr s1 \<longrightarrow> drain env s1 = Inr (views, s2) \<longrightarrow>
            (\<exists>msg. nextPartition s2 = Inl (CheckFailed msg)))"
proof -
  from addInputs_frame [OF a] have f: "partitionStartRows s0 = []" "currentPartition s0 = - 1"
    "merge s0 = None" "numRows s0 = int (length (concat inputs))"
    by (simp_all add: newBuild_def)
  then have 1: "nextPartition s0 = Inl (CheckFailed ''No window partitions available'')"
    by (simp add: nextPartition_def)
  have 2: "\<exists>msg. nextPartition s2 = Inl (CheckFailed msg)"
    if n: "noMoreInput env s0 = Inr s1" and d: "drain env s1 = Inr (views, s2)" for s1 views s2
  proof -
    from f fits have "numRows s0 < 2 ^ 31" by simp
    from noMoreInput_memoryOk [OF n f(1-3) this len] have "memoryOk s1" .
    from drain_exhausted [OF d this] show ?thesis .
  qed
  from 1 2 show ?thesis by blast
qed

theorem nextPartition_unavailable_fails_witness:
  "(\<forall>rows. length (prefixSort (exampleCollab None False) rows) = length rows) \<and>
   int (length (concat ([[(2, 12), (1, 10)], [(1, 11)]] :: (nat \<times> nat) list list))) < 2 ^ 31 \<and>
   addInputs (exampleCollab None False) [[(2, 12), (1, 10)], [(1, 11)]] (newBuild 0) =
     Inr (exampleDrainedState\<lparr>sortedRows := [], partitionStartRows := [], currentPartition := - 1\<rparr>) \<and>
   nextPartition
     (exampleDrainedState\<lparr>sortedRows := [], partitionStartRows := [], currentPartition := - 1\<rparr>) =
     Inl (CheckFailed ''No window partitions available'') \<and>
   noMoreInput (exampleCollab None False)
     (exampleDrainedState\<lparr>sortedRows := [], partitionStartRows := [], currentPartition := - 1\<rparr>) =
     Inr (exampleDrainedState\<lparr>currentPartition := - 1\<rparr>) \<and>
   drain (exampleCollab None False) (exampleDrainedState\<lparr>currentPartition := - 1\<rparr>) =
     Inr ([[(1, 10), (1, 11)], [(2, 12)]], exampleDrainedState) \<and>
   (\<exists>msg. nextPartition exampleDrainedState = Inl (CheckFailed msg)) \<and>
   nextPartition exampleDrainedState = Inl (CheckFailed ''All window partitions consumed'')"
proof -
  let ?env = "exampleCollab None False :: (nat \<times> nat, nat, int) collab"
  let ?s0 = "exampleDrainedState\<lparr>sortedRows := [], partitionStartRows := [], currentPartition := - 1\<rparr>"
  have l: "\<forall>rows. length (prefixSort ?env rows) = length rows"
    by (simp add: exampleCollab_def)
  have f: "int (length (concat ([[(2, 12), (1, 10)], [(1, 11)]] :: (nat \<times> nat) list list))) < 2 ^ 31"
    by simp
  have a: "addInputs ?env [[(2, 12), (1, 10)], [(1, 11)]] (newBuild 0) = Inr ?s0"
    by code_simp
  have n: "noMoreInput ?env ?s0 = Inr (exampleDrainedState\<lparr>currentPartition := - 1\<rparr>)"
    by code_simp
  have d: "drain ?env (exampleDrainedState\<lparr>currentPartition := - 1\<rparr>) =
     Inr ([[(1, 10), (1, 11)], [(2, 12)]], exampleDrainedState)"
    by code_simp
  have x: "nextPartition exampleDrainedState = Inl (CheckFailed ''All window partitions consumed'')"
    by code_simp
  note t = nextPartition_unavailable_fails [OF l f a]
  from t have 1: "nextPartition ?s0 = Inl (CheckFailed ''No window partitions available'')"
    by (rule conjunct1)
  from t n d have 2: "\<exists>msg. nextPartition exampleDrainedState = Inl (CheckFailed msg)"
    by blast
  from l f a 1 n d 2 x show ?thesis by (intro conjI)
qed

text \<open>
  The claim as stated fails in merge mode: two batches are spilled by the hook, the reader
  delivers their only partition, \<^verbatim>\<open>nextPartition\<close> returns it, the reader is exhausted and no
  partition is left, yet a second \<^verbatim>\<open>nextPartition\<close> right after the first returns the same
  view again instead of failing.
\<close>

theorem nextPartition_after_last_counterexample:
  "addInputs (exampleCollab (Some exampleConfig) True) [[(1, 10)], [(1, 11)]] (newBuild 0) =
     Inr (exampleLastPartitionState\<lparr>data := [(1, 11)], sortedRows := [],
            spiller := Some [[(1, 10)]], merge := None, hookCalls := 1\<rparr>) \<and>
   noMoreInput (exampleCollab (Some exampleConfig) True)
     (exampleLastPartitionState\<lparr>data := [(1, 11)], sortedRows := [],
        spiller := Some [[(1, 10)]], merge := None, hookCalls := 1\<rparr>) =
     Inr (exampleLastPartitionState\<lparr>data := [], sortedRows := [],
            merge := Some [(1, 10), (1, 11)]\<rparr>) \<and>
   hasNextPartition (exampleCollab (Some exampleConfig) True)
     (exampleLastPartitionState\<lparr>data := [], sortedRows := [], merge := Some [(1, 10), (1, 11)]\<rparr>) =
     (True, exampleLastPartitionState) \<and>
   nextPartition exampleLastPartitionState = Inr ([(1, 10), (1, 11)], exampleLastPartitionState) \<and>
   merge exampleLastPartitionState = Some [] \<and>
   fst (hasNextPartition (exampleCollab (Some exampleConfig) True) exampleLastPartitionState) = False \<and>
   (case nextPartition exampleLastPartitionState of
      Inl e \<Rightarrow> Inl e
    | Inr (v, s) \<Rightarrow> nextPartition s) = Inr ([(1, 10), (1, 11)], exampleLastPartitionState)"
  by code_simp

end
